theory Spec2Isabelle
  imports
    Main
    "HOL-Library.Multiset"
    "HOL-Library.Char_ord"
    "HOL-Library.List_Lexorder"
    "HOL-Library.Product_Lexorder"
begin

section \<open>Data model (tipping/models.py)\<close>

text \<open>
  The rows of the Django models, with the columns the scoring and ranking code reads.
  Primary keys and foreign keys are natural numbers, Python integers are \<open>int\<close>,
  a nullable column is an \<open>option\<close>, timestamps are integers on one common clock.
\<close>

record user =
  user_id :: nat
  username :: string

record tournament =
  tournament_id :: nat
  season_start :: "int option"
  autumn_champion :: string
  champion :: string
  first_coach_sacked :: string
  top_scorer :: string
  relegated_teams :: string

record match =
  match_id :: nat
  match_tournament :: nat
  matchday :: "int option"
  home_score :: "int option"
  away_score :: "int option"

record prediction =
  pred_user :: nat
  pred_group :: nat
  pred_match :: nat
  pred_home :: "int option"
  pred_away :: "int option"

record bonus_prediction =
  bp_user :: nat
  bp_group :: nat
  bp_tournament :: nat
  bonus_type :: string
  bp_value :: string

section \<open>Scoring (tipping/views.py)\<close>

subsection \<open>\<open>_outcome\<close> and \<open>points_for_prediction\<close>\<close>

text \<open>
  \<^verbatim>\<open>return (h > a) - (h < a)\<close>: the difference of two Python booleans, read as 1 and 0.
\<close>

definition outcome :: "int \<Rightarrow> int \<Rightarrow> int" where
  "outcome h a = (if h > a then 1 else 0) - (if h < a then 1 else 0)"

text \<open>
  The scorer takes a match and a prediction that may be \<open>None\<close>. The three guards and
  the three comparisons are in the order of the source.
\<close>

definition points_for_prediction :: "match \<Rightarrow> prediction option \<Rightarrow> int" where
  "points_for_prediction m pred =
     (case pred of
        None \<Rightarrow> 0
      | Some p \<Rightarrow>
          if home_score m = None \<or> away_score m = None then 0
          else if pred_home p = None \<or> pred_away p = None then 0
          else if the (pred_home p) = the (home_score m) \<and> the (pred_away p) = the (away_score m)
            then 4
          else if the (pred_home p) - the (pred_away p) = the (home_score m) - the (away_score m)
            then 3
          else if outcome (the (pred_home p)) (the (pred_away p))
                  = outcome (the (home_score m)) (the (away_score m))
            then 2
          else 0)"

text \<open>Relabelling home and away: the two sides of a result, and of a prediction, are swapped.\<close>

definition swap_match :: "match \<Rightarrow> match" where
  "swap_match m = m\<lparr>home_score := away_score m, away_score := home_score m\<rparr>"

definition swap_prediction :: "prediction \<Rightarrow> prediction" where
  "swap_prediction p = p\<lparr>pred_home := pred_away p, pred_away := pred_home p\<rparr>"

subsection \<open>Text normalisation\<close>

text \<open>
  A string is the list of its characters; text beyond ASCII is held as its UTF-8 bytes,
  whose bytewise lexicographic order is the order of the code points that Python
  compares. The methods \<^verbatim>\<open>str.lower\<close> and \<^verbatim>\<open>str.strip\<close> belong to the
  Python runtime, with its Unicode tables of letters and white space, and not to the
  repository: they are parameters of the model, and every property below holds for
  whatever functions they are.
\<close>

record str_methods =
  lower :: "string \<Rightarrow> string"
  strip :: "string \<Rightarrow> string"

text \<open>\<^verbatim>\<open>_norm(s) = (s or "").strip().lower()\<close>; the column is never \<open>None\<close>.\<close>

definition norm :: "str_methods \<Rightarrow> string \<Rightarrow> string" where
  "norm py s = lower py (strip py s)"

text \<open>
  \<^verbatim>\<open>split(",")\<close> cuts at every comma and yields one piece more than there are
  commas, so the empty string yields one empty piece.
\<close>

fun split_comma :: "string \<Rightarrow> string list" where
  "split_comma [] = [[]]"
| "split_comma (c # cs) =
     (if c = CHR '','' then [] # split_comma cs
      else (case split_comma cs of
              [] \<Rightarrow> [[c]]
            | w # ws \<Rightarrow> (c # w) # ws))"

subsection \<open>\<open>bonus_points_for_user\<close>\<close>

definition relegated_set :: "str_methods \<Rightarrow> tournament \<Rightarrow> string set" where
  "relegated_set py t =
     set (map (norm py) (filter (\<lambda>x. norm py x \<noteq> []) (split_comma (relegated_teams t))))"

text \<open>
  One round of the loop over the bonus predictions. The state is the pair of
  \<^verbatim>\<open>pts\<close> and \<^verbatim>\<open>counted_relegations\<close>. The branches are the
  \<^verbatim>\<open>if\<close>/\<^verbatim>\<open>elif\<close> chain of the source, in its order; a non-empty
  string or set is true.
\<close>

definition bonus_step :: "str_methods \<Rightarrow> tournament \<Rightarrow> bonus_prediction
    \<Rightarrow> int \<times> string set \<Rightarrow> int \<times> string set" where
  "bonus_step py t bp st =
     (let btype = bonus_type bp;
          val = norm py (bp_value bp);
          pts = fst st;
          counted_relegations = snd st
      in if val = [] then st
         else if btype = ''herbstmeister'' \<and> norm py (autumn_champion t) \<noteq> []
                 \<and> val = norm py (autumn_champion t)
           then (pts + 5, counted_relegations)
         else if btype = ''meister'' \<and> norm py (champion t) \<noteq> [] \<and> val = norm py (champion t)
           then (pts + 5, counted_relegations)
         else if btype = ''trainer_first'' \<and> norm py (first_coach_sacked t) \<noteq> []
                 \<and> val = norm py (first_coach_sacked t)
           then (pts + 5, counted_relegations)
         else if btype = ''topscorer'' \<and> norm py (top_scorer t) \<noteq> [] \<and> val = norm py (top_scorer t)
           then (pts + 5, counted_relegations)
         else if (btype = ''relegation1'' \<or> btype = ''relegation2'')
                 \<and> relegated_set py t \<noteq> {} \<and> val \<in> relegated_set py t
           then (if val \<notin> counted_relegations
                 then (pts + 5, insert val counted_relegations)
                 else st)
         else st)"

definition bonus_points_for_user :: "str_methods \<Rightarrow> tournament \<Rightarrow> bonus_prediction list \<Rightarrow> int" where
  "bonus_points_for_user py t preds = fst (fold (bonus_step py t) preds (0, {}))"

text \<open>
  The vocabulary of the bonus claims: a prediction for one of the two relegation slots,
  a correct prediction for one of the four single-valued categories, and a correct
  prediction for a relegation slot.
\<close>

definition is_relegation :: "bonus_prediction \<Rightarrow> bool" where
  "is_relegation bp = (bonus_type bp = ''relegation1'' \<or> bonus_type bp = ''relegation2'')"

definition single_answer :: "str_methods \<Rightarrow> tournament \<Rightarrow> string \<Rightarrow> string option" where
  "single_answer py t btype =
     (if btype = ''herbstmeister'' then Some (norm py (autumn_champion t))
      else if btype = ''meister'' then Some (norm py (champion t))
      else if btype = ''trainer_first'' then Some (norm py (first_coach_sacked t))
      else if btype = ''topscorer'' then Some (norm py (top_scorer t))
      else None)"

definition correct_single :: "str_methods \<Rightarrow> tournament \<Rightarrow> bonus_prediction \<Rightarrow> bool" where
  "correct_single py t bp =
     (norm py (bp_value bp) \<noteq> [] \<and> single_answer py t (bonus_type bp) = Some (norm py (bp_value bp)))"

definition correct_relegation :: "str_methods \<Rightarrow> tournament \<Rightarrow> bonus_prediction \<Rightarrow> bool" where
  "correct_relegation py t bp = (is_relegation bp \<and> norm py (bp_value bp) \<in> relegated_set py t)"

text \<open>The normalised values that a list of predictions names correctly for a relegation slot.\<close>

definition credited :: "str_methods \<Rightarrow> tournament \<Rightarrow> bonus_prediction list \<Rightarrow> string set" where
  "credited py t preds = (\<lambda>bp. norm py (bp_value bp)) ` {bp \<in> set preds. correct_relegation py t bp}"

section \<open>The leaderboard view \<open>tabelle\<close> (tipping/views.py)\<close>

text \<open>
  What one request sees: the rows of the three tables, the tournament and the group of
  the active membership, the users of the group in the order of the membership query, the
  time of the request, the string methods of the runtime that serves it, and the two
  paging parameters. A paging parameter is \<open>None\<close>
  when it is absent from the query string or when \<^verbatim>\<open>int(...)\<close> raises
  \<^verbatim>\<open>ValueError\<close>; both cases take the default.
\<close>

record request =
  match_objects :: "match list"
  prediction_objects :: "prediction list"
  bonus_objects :: "bonus_prediction list"
  req_tournament :: tournament
  req_group :: nat
  req_users :: "user list"
  req_now :: int
  req_str :: str_methods
  get_from :: "int option"
  get_count :: "int option"

text \<open>\<^verbatim>\<open>d.get(k, default)\<close> on a dictionary.\<close>

definition dict_get :: "('k \<rightharpoonup> 'v) \<Rightarrow> 'k \<Rightarrow> 'v \<Rightarrow> 'v" where
  "dict_get d k dflt = (case d k of None \<Rightarrow> dflt | Some v \<Rightarrow> v)"

subsection \<open>Bonus reveal and the column window\<close>

text \<open>\<^verbatim>\<open>bool(season_start and now >= season_start)\<close>\<close>

definition bonus_reveal :: "request \<Rightarrow> bool" where
  "bonus_reveal r =
     (case season_start (req_tournament r) of None \<Rightarrow> False | Some s \<Rightarrow> req_now r \<ge> s)"

text \<open>\<^verbatim>\<open>count = max(4, min(count, 15))\<close>, from the parameter or the default 8.\<close>

definition clamp_count :: "int \<Rightarrow> int" where
  "clamp_count c = max 4 (min c 15)"

definition count_md :: "request \<Rightarrow> int" where
  "count_md r = clamp_count (case get_count r of None \<Rightarrow> 8 | Some c \<Rightarrow> c)"

text \<open>
  The distinct matchdays of the tournament's matches, without the matches that have no
  matchday, in ascending order.
\<close>

definition matchdays_of :: "match list \<Rightarrow> tournament \<Rightarrow> int list" where
  "matchdays_of ms t =
     sort (remdups (List.map_filter matchday
       (filter (\<lambda>m. match_tournament m = tournament_id t) ms)))"

definition matchdays :: "request \<Rightarrow> int list" where
  "matchdays r = matchdays_of (match_objects r) (req_tournament r)"

text \<open>
  A tournament without any matchday gets an empty table at this point, and nothing below
  is computed for it. Otherwise the view goes on with the two clamps of
  \<^verbatim>\<open>from_idx\<close>, in the order of the source; the second test reads the value the
  first one left.
\<close>

definition clamp_from :: "int \<Rightarrow> int \<Rightarrow> nat \<Rightarrow> int" where
  "clamp_from f c n =
     (let from_idx = (if f < 0 then 0 else f)
      in if from_idx \<ge> int n then max 0 (int n - c) else from_idx)"

definition from_idx :: "request \<Rightarrow> int" where
  "from_idx r =
     clamp_from (case get_from r of None \<Rightarrow> 0 | Some f \<Rightarrow> f) (count_md r) (length (matchdays r))"

text \<open>
  \<^verbatim>\<open>matchdays[from_idx:from_idx + count]\<close>. Both bounds are non-negative after the
  clamps, so the slice drops \<open>from_idx\<close> elements and keeps up to \<open>count\<close>.
\<close>

definition shown_matchdays :: "request \<Rightarrow> int list" where
  "shown_matchdays r = take (nat (count_md r)) (drop (nat (from_idx r)) (matchdays r))"

subsection \<open>Season totals over all matches with a result\<close>

text \<open>\<^verbatim>\<open>pr.match\<close>: the row of the match table that the foreign key names.\<close>

definition match_of :: "match list \<Rightarrow> prediction \<Rightarrow> match option" where
  "match_of ms pr = find (\<lambda>m. match_id m = pred_match pr) ms"

definition finished_preds :: "request \<Rightarrow> prediction list" where
  "finished_preds r =
     filter (\<lambda>pr. pred_group pr = req_group r
        \<and> (case match_of (match_objects r) pr of
              None \<Rightarrow> False
            | Some m \<Rightarrow> match_tournament m = tournament_id (req_tournament r)
                \<and> home_score m \<noteq> None \<and> away_score m \<noteq> None))
       (prediction_objects r)"

definition add_prediction_points :: "match list \<Rightarrow> prediction \<Rightarrow> (nat \<rightharpoonup> int) \<Rightarrow> (nat \<rightharpoonup> int)" where
  "add_prediction_points ms pr d =
     (case match_of ms pr of
        None \<Rightarrow> d
      | Some m \<Rightarrow>
          d(pred_user pr \<mapsto> dict_get d (pred_user pr) 0 + points_for_prediction m (Some pr)))"

definition all_bonus :: "request \<Rightarrow> bonus_prediction list" where
  "all_bonus r =
     filter (\<lambda>bp. bp_group bp = req_group r
        \<and> bp_tournament bp = tournament_id (req_tournament r)
        \<and> bp_user bp \<in> user_id ` set (req_users r))
       (bonus_objects r)"

text \<open>
  \<^verbatim>\<open>bonus_by_user\<close> collects each user's predictions in the order of the query;
  a user without predictions reads the empty list.
\<close>

definition bonus_by_user :: "bonus_prediction list \<Rightarrow> nat \<Rightarrow> bonus_prediction list" where
  "bonus_by_user bs uid = filter (\<lambda>bp. bp_user bp = uid) bs"

definition bonus_points_by_user :: "request \<Rightarrow> (nat \<rightharpoonup> int)" where
  "bonus_points_by_user r =
     (if bonus_reveal r
      then fold (\<lambda>u d. d(user_id u \<mapsto>
              bonus_points_for_user (req_str r) (req_tournament r) (bonus_by_user (all_bonus r) (user_id u))))
            (req_users r) Map.empty
      else Map.empty)"

definition total_points_all :: "request \<Rightarrow> (nat \<rightharpoonup> int)" where
  "total_points_all r =
     (let d0 = fold (\<lambda>u d. d(user_id u \<mapsto> 0)) (req_users r) Map.empty;
          d1 = fold (add_prediction_points (match_objects r)) (finished_preds r) d0
      in if bonus_reveal r
         then fold (\<lambda>u d. d(user_id u \<mapsto>
                 dict_get d (user_id u) 0 + dict_get (bonus_points_by_user r) (user_id u) 0))
               (req_users r) d1
         else d1)"

subsection \<open>Points per matchday in the window\<close>

text \<open>
  The matches of the shown matchdays. The query also orders them by matchday, kickoff and
  home team; the order is not modelled, since the matches of a matchday are only summed
  over and tested for a result.
\<close>

definition window_matches :: "match list \<Rightarrow> tournament \<Rightarrow> int list \<Rightarrow> match list" where
  "window_matches ms t shown =
     filter (\<lambda>m. match_tournament m = tournament_id t
        \<and> (case matchday m of None \<Rightarrow> False | Some md \<Rightarrow> md \<in> set shown)) ms"

definition matches_by_md :: "match list \<Rightarrow> int \<Rightarrow> match list" where
  "matches_by_md ms md = filter (\<lambda>m. matchday m = Some md) ms"

definition all_preds :: "prediction list \<Rightarrow> nat \<Rightarrow> match list \<Rightarrow> user list \<Rightarrow> prediction list" where
  "all_preds ps g ms users =
     filter (\<lambda>p. pred_group p = g \<and> pred_match p \<in> match_id ` set ms
        \<and> pred_user p \<in> user_id ` set users) ps"

text \<open>The dictionary comprehension: a later prediction with the same key replaces an earlier one.\<close>

definition pred_map :: "prediction list \<Rightarrow> (nat \<times> nat \<rightharpoonup> prediction)" where
  "pred_map ps = fold (\<lambda>p d. d((pred_user p, pred_match p) \<mapsto> p)) ps Map.empty"

text \<open>
  The inner loop over the matches of one matchday, with the state
  \<^verbatim>\<open>(scored_any, total)\<close> (\<open>tot\<close> below), and the value stored for one user and one matchday.
\<close>

definition md_scan :: "(nat \<times> nat \<rightharpoonup> prediction) \<Rightarrow> nat \<Rightarrow> match list \<Rightarrow> bool \<times> int" where
  "md_scan pm uid md_matches =
     fold (\<lambda>m (scored_any, tot).
             if home_score m = None \<or> away_score m = None then (scored_any, tot)
             else (True, tot + points_for_prediction m (pm (uid, match_id m))))
       md_matches (False, 0)"

definition md_points_cell :: "match list \<Rightarrow> (nat \<times> nat \<rightharpoonup> prediction) \<Rightarrow> nat \<Rightarrow> int \<Rightarrow> int option" where
  "md_points_cell ms pm uid md =
     (let md_matches = matches_by_md ms md
      in if md_matches = [] then None
         else (case md_scan pm uid md_matches of
                 (scored_any, tot) \<Rightarrow> if scored_any then Some tot else None))"

text \<open>
  \<^verbatim>\<open>md_points[user_id][md]\<close>, as one dictionary on pairs of keys: every key starts
  at \<open>None\<close> and the two nested loops store every cell.
\<close>

definition md_points_of :: "user list \<Rightarrow> int list \<Rightarrow> match list \<Rightarrow> (nat \<times> nat \<rightharpoonup> prediction)
    \<Rightarrow> (nat \<times> int \<rightharpoonup> int option)" where
  "md_points_of users shown ms pm =
     (let d0 = fold (\<lambda>u d. fold (\<lambda>md d. d((user_id u, md) \<mapsto> None)) shown d) users Map.empty
      in fold (\<lambda>u d. fold (\<lambda>md d. d((user_id u, md) \<mapsto> md_points_cell ms pm (user_id u) md))
                          shown d) users d0)"

definition matches :: "request \<Rightarrow> match list" where
  "matches r = window_matches (match_objects r) (req_tournament r) (shown_matchdays r)"

definition md_points :: "request \<Rightarrow> (nat \<times> int \<rightharpoonup> int option)" where
  "md_points r =
     md_points_of (req_users r) (shown_matchdays r) (matches r)
       (pred_map (all_preds (prediction_objects r) (req_group r) (matches r) (req_users r)))"

subsection \<open>Ranks per matchday\<close>

definition any_results :: "match list \<Rightarrow> bool" where
  "any_results md_matches =
     list_ex (\<lambda>m. home_score m \<noteq> None \<and> away_score m \<noteq> None) md_matches"

text \<open>
  The triples \<^verbatim>\<open>(pts, u.username.lower(), u.id)\<close>, where a missing aggregate counts
  as 0, and the key \<^verbatim>\<open>(-x[0], x[1])\<close> of the stable sort. Pairs are ordered
  lexicographically and strings by their characters' codes, as in Python.
\<close>

definition sortable :: "str_methods \<Rightarrow> user list \<Rightarrow> (nat \<Rightarrow> int option) \<Rightarrow> (int \<times> string \<times> nat) list" where
  "sortable py users pts_of =
     map (\<lambda>u. (case pts_of (user_id u) of None \<Rightarrow> 0 | Some pts \<Rightarrow> pts,
                lower py (username u), user_id u)) users"

definition rank_key :: "int \<times> string \<times> nat \<Rightarrow> int \<times> string" where
  "rank_key x = (- fst x, fst (snd x))"

text \<open>
  The loop over \<^verbatim>\<open>enumerate(sortable, start=1)\<close> with the state
  \<^verbatim>\<open>rank\<close>, \<^verbatim>\<open>last_pts\<close> and the dictionary of the matchday.
\<close>

fun rank_loop :: "int \<Rightarrow> int \<Rightarrow> int option \<Rightarrow> (int \<times> string \<times> nat) list
    \<Rightarrow> (nat \<rightharpoonup> int option) \<Rightarrow> (nat \<rightharpoonup> int option)" where
  "rank_loop idx rank last_pts [] d = d"
| "rank_loop idx rank last_pts ((pts, name, uid) # rest) d =
     (if last_pts = None \<or> Some pts \<noteq> last_pts
      then rank_loop (idx + 1) idx (Some pts) rest (d(uid \<mapsto> Some idx))
      else rank_loop (idx + 1) rank last_pts rest (d(uid \<mapsto> Some rank)))"

definition rank_column :: "str_methods \<Rightarrow> user list \<Rightarrow> match list \<Rightarrow> (nat \<Rightarrow> int option) \<Rightarrow> (nat \<rightharpoonup> int option)" where
  "rank_column py users md_matches pts_of =
     (if \<not> any_results md_matches
      then fold (\<lambda>u d. d(user_id u \<mapsto> None)) users Map.empty
      else rank_loop 1 0 None (sort_key rank_key (sortable py users pts_of)) Map.empty)"

text \<open>
  \<^verbatim>\<open>rank_by_md[md]\<close> for a shown matchday. The points are read from
  \<^verbatim>\<open>md_points[u.id][md]\<close>, which holds a value for every user and shown matchday.
\<close>

definition rank_by_md :: "request \<Rightarrow> int \<Rightarrow> (nat \<rightharpoonup> int option)" where
  "rank_by_md r md =
     rank_column (req_str r) (req_users r) (matches_by_md (matches r) md)
       (\<lambda>uid. dict_get (md_points r) (uid, md) None)"

text \<open>
  The vocabulary of the ranking claims: the points a user is ranked with, where a missing
  aggregate counts as 0, and the number of entries of a list with more than \<open>p\<close> points.
\<close>

definition points_or_zero :: "(nat \<Rightarrow> int option) \<Rightarrow> nat \<Rightarrow> int" where
  "points_or_zero pts_of uid = (case pts_of uid of None \<Rightarrow> 0 | Some pts \<Rightarrow> pts)"

definition above :: "(int \<times> string \<times> nat) list \<Rightarrow> int \<Rightarrow> int" where
  "above es p = int (length (filter (\<lambda>e. fst e > p) es))"

subsection \<open>Rank differences against the previous column of the window\<close>

text \<open>
  One cell of \<^verbatim>\<open>rankdiff_by_md\<close>, for the column at index \<open>i\<close> of the window;
  \<^verbatim>\<open>.get(u.id)\<close> reads \<open>None\<close> for a missing user as for a stored \<open>None\<close>.
\<close>

definition rankdiff_cell :: "(int \<Rightarrow> (nat \<rightharpoonup> int option)) \<Rightarrow> int list \<Rightarrow> nat \<Rightarrow> nat \<Rightarrow> int option" where
  "rankdiff_cell rk shown i uid =
     (let md = shown ! i;
          prev_md_local = (if i > 0 then Some (shown ! (i - 1)) else None);
          cur = dict_get (rk md) uid None
      in case prev_md_local of
           None \<Rightarrow> None
         | Some pmd \<Rightarrow>
             (let prev = dict_get (rk pmd) uid None
              in if cur = None \<or> prev = None then None else Some (the prev - the cur)))"

definition rankdiff_of :: "(int \<Rightarrow> (nat \<rightharpoonup> int option)) \<Rightarrow> int list \<Rightarrow> user list
    \<Rightarrow> (int \<times> nat \<rightharpoonup> int option)" where
  "rankdiff_of rk shown users =
     fold (\<lambda>i d. fold (\<lambda>u d. d((shown ! i, user_id u) \<mapsto> rankdiff_cell rk shown i (user_id u)))
                       users d)
       [0..<length shown] Map.empty"

definition rankdiff_by_md :: "request \<Rightarrow> (int \<times> nat \<rightharpoonup> int option)" where
  "rankdiff_by_md r = rankdiff_of (rank_by_md r) (shown_matchdays r) (req_users r)"

subsection \<open>Vocabulary of the season total\<close>

text \<open>
  The value the table shows as a user's total, \<^verbatim>\<open>total_points_all.get(u.id, 0)\<close>,
  and the bonus points added to it after the reveal.
\<close>

definition season_total :: "request \<Rightarrow> nat \<Rightarrow> int" where
  "season_total r uid = dict_get (total_points_all r) uid 0"

definition user_bonus_points :: "request \<Rightarrow> nat \<Rightarrow> int" where
  "user_bonus_points r uid =
     bonus_points_for_user (req_str r) (req_tournament r) (bonus_by_user (all_bonus r) uid)"

text \<open>The points of one prediction on its own match, as the loop over the finished predictions adds them.\<close>

definition pred_points :: "match list \<Rightarrow> prediction \<Rightarrow> int" where
  "pred_points ms pr =
     (case match_of ms pr of None \<Rightarrow> 0 | Some m \<Rightarrow> points_for_prediction m (Some pr))"

text \<open>
  A user's points of a matchday, whether it is shown or not: the aggregate that the view
  computes for a window that holds every matchday of the tournament.
\<close>

definition all_matchday_matches :: "request \<Rightarrow> match list" where
  "all_matchday_matches r = window_matches (match_objects r) (req_tournament r) (matchdays r)"

definition matchday_points :: "request \<Rightarrow> nat \<Rightarrow> int \<Rightarrow> int option" where
  "matchday_points r uid md =
     md_points_cell (all_matchday_matches r)
       (pred_map (all_preds (prediction_objects r) (req_group r) (all_matchday_matches r)
          (req_users r)))
       uid md"

text \<open>
  The points of a user's predictions on matches of the tournament that have a result and
  no matchday.
\<close>

definition unassigned_points :: "request \<Rightarrow> nat \<Rightarrow> int" where
  "unassigned_points r uid =
     (\<Sum>pr\<leftarrow>filter (\<lambda>pr. pred_user pr = uid
            \<and> (case match_of (match_objects r) pr of
                  None \<Rightarrow> False
                | Some m \<Rightarrow> matchday m = None))
          (finished_preds r).
        pred_points (match_objects r) pr)"

text \<open>
  The uniqueness constraints of tipping/models.py: the primary key of a match, one
  prediction per user, group and match, one membership per user and group.
\<close>

definition db_consistent :: "request \<Rightarrow> bool" where
  "db_consistent r =
     (distinct (map match_id (match_objects r))
      \<and> distinct (map (\<lambda>p. (pred_user p, pred_group p, pred_match p)) (prediction_objects r))
      \<and> distinct (map user_id (req_users r)))"

section \<open>Example data\<close>

text \<open>
  String methods for the examples, whose texts are ASCII: on ASCII text
  \<^verbatim>\<open>str.strip\<close> removes the tab, line feed, vertical tab, form feed, carriage
  return, the separators 28 to 31 and the space at both ends, and \<^verbatim>\<open>str.lower\<close>
  maps \<open>A\<close> to \<open>Z\<close>.
\<close>

definition ascii_space :: "char \<Rightarrow> bool" where
  "ascii_space c = ((of_char c :: nat) \<in> {9, 10, 11, 12, 13, 28, 29, 30, 31, 32})"

definition ascii_lower_char :: "char \<Rightarrow> char" where
  "ascii_lower_char c =
     (if 65 \<le> (of_char c :: nat) \<and> (of_char c :: nat) \<le> 90
      then char_of ((of_char c :: nat) + 32) else c)"

definition ascii_str :: str_methods where
  "ascii_str =
     \<lparr>lower = map ascii_lower_char,
      strip = (\<lambda>s. rev (dropWhile ascii_space (rev (dropWhile ascii_space s))))\<rparr>"

text \<open>
  A request against a small database, used to instantiate the theorems below: three
  users of group 7, a tournament whose season has started, three matchdays of which the
  first has one match with a result and one without, the second has a result and the
  third has none, and one match with a result and no matchday.
\<close>

definition example_tournament :: tournament where
  "example_tournament =
     \<lparr>tournament_id = 1, season_start = Some 100, autumn_champion = [], champion = ''Bayern'',
      first_coach_sacked = [], top_scorer = [], relegated_teams = ''Alpha, Beta''\<rparr>"

definition example_users :: "user list" where
  "example_users =
     [\<lparr>user_id = 1, username = ''Ana''\<rparr>, \<lparr>user_id = 2, username = ''ben''\<rparr>,
      \<lparr>user_id = 3, username = ''Cy''\<rparr>]"

definition example_request :: request where
  "example_request =
     \<lparr>match_objects =
        [\<lparr>match_id = 1, match_tournament = 1, matchday = Some 1, home_score = Some 2, away_score = Some 1\<rparr>,
         \<lparr>match_id = 2, match_tournament = 1, matchday = Some 1, home_score = None, away_score = None\<rparr>,
         \<lparr>match_id = 3, match_tournament = 1, matchday = Some 2, home_score = Some 0, away_score = Some 0\<rparr>,
         \<lparr>match_id = 4, match_tournament = 1, matchday = None, home_score = Some 1, away_score = Some 1\<rparr>,
         \<lparr>match_id = 5, match_tournament = 1, matchday = Some 3, home_score = None, away_score = None\<rparr>],
      prediction_objects =
        [\<lparr>pred_user = 1, pred_group = 7, pred_match = 1, pred_home = Some 2, pred_away = Some 1\<rparr>,
         \<lparr>pred_user = 2, pred_group = 7, pred_match = 1, pred_home = Some 1, pred_away = Some 0\<rparr>,
         \<lparr>pred_user = 1, pred_group = 7, pred_match = 4, pred_home = Some 1, pred_away = Some 1\<rparr>,
         \<lparr>pred_user = 2, pred_group = 7, pred_match = 3, pred_home = Some 1, pred_away = Some 1\<rparr>,
         \<lparr>pred_user = 3, pred_group = 7, pred_match = 3, pred_home = Some 0, pred_away = Some 1\<rparr>,
         \<lparr>pred_user = 1, pred_group = 7, pred_match = 5, pred_home = Some 1, pred_away = Some 1\<rparr>],
      bonus_objects =
        [\<lparr>bp_user = 1, bp_group = 7, bp_tournament = 1, bonus_type = ''meister'', bp_value = '' bayern''\<rparr>],
      req_tournament = example_tournament, req_group = 7, req_users = example_users,
      req_now = 100, req_str = ascii_str, get_from = Some 7, get_count = None\<rparr>"

text \<open>
  Five users with the points 10, 10, 7, 5 and 5 on a matchday that has a result, for the
  ranking example of the specification. In each pair of users with equal points the
  capitalised name comes first by the codes of its characters and second once both names
  are lower-cased.
\<close>

definition example_ranking_users :: "user list" where
  "example_ranking_users =
     [\<lparr>user_id = 1, username = ''ana''\<rparr>, \<lparr>user_id = 2, username = ''ben''\<rparr>,
      \<lparr>user_id = 3, username = ''Cy''\<rparr>, \<lparr>user_id = 4, username = ''Dan''\<rparr>,
      \<lparr>user_id = 5, username = ''Eve''\<rparr>]"

definition example_ranking_points :: "nat \<Rightarrow> int option" where
  "example_ranking_points = map_of [(1, 5), (2, 10), (3, 7), (4, 10), (5, 5)]"

definition example_ranking_matches :: "match list" where
  "example_ranking_matches =
     [\<lparr>match_id = 1, match_tournament = 1, matchday = Some 1, home_score = Some 2, away_score = Some 1\<rparr>]"

section \<open>Properties of the match scorer\<close>

lemma outcome_sgn: "outcome h a = sgn (h - a)"
  by (simp add: outcome_def sgn_if)

text \<open>
  Claim C1. The match scorer returns 0 when the prediction is absent, when a side of the
  result is missing or when a side of the prediction is missing. With all four numbers
  present it returns 4 exactly when the predicted pair is the actual pair, 3 exactly when
  the goal differences agree and the pairs differ, 2 exactly when the signs of home minus
  away agree and the goal differences differ, and 0 exactly when the signs differ.
\<close>

theorem points_for_prediction_scale:
  "(pred = None \<or> home_score m = None \<or> away_score m = None
      \<or> (\<exists>p. pred = Some p \<and> (pred_home p = None \<or> pred_away p = None))
      \<longrightarrow> points_for_prediction m pred = 0)
   \<and> (\<forall>p ah aa ph pa.
         pred = Some p \<and> home_score m = Some ah \<and> away_score m = Some aa
           \<and> pred_home p = Some ph \<and> pred_away p = Some pa \<longrightarrow>
         (points_for_prediction m pred = 4 \<longleftrightarrow> (ph, pa) = (ah, aa))
         \<and> (points_for_prediction m pred = 3 \<longleftrightarrow> ph - pa = ah - aa \<and> (ph, pa) \<noteq> (ah, aa))
         \<and> (points_for_prediction m pred = 2 \<longleftrightarrow>
               sgn (ph - pa) = sgn (ah - aa) \<and> ph - pa \<noteq> ah - aa)
         \<and> (points_for_prediction m pred = 0 \<longleftrightarrow> sgn (ph - pa) \<noteq> sgn (ah - aa)))"
proof (intro conjI impI allI)
  assume "pred = None \<or> home_score m = None \<or> away_score m = None
      \<or> (\<exists>p. pred = Some p \<and> (pred_home p = None \<or> pred_away p = None))"
  then show "points_for_prediction m pred = 0"
    by (auto simp: points_for_prediction_def split: option.splits)
next
  fix p ah aa ph pa
  assume a: "pred = Some p \<and> home_score m = Some ah \<and> away_score m = Some aa
           \<and> pred_home p = Some ph \<and> pred_away p = Some pa"
  have v: "points_for_prediction m pred =
      (if ph = ah \<and> pa = aa then 4 else if ph - pa = ah - aa then 3
       else if sgn (ph - pa) = sgn (ah - aa) then 2 else 0)"
    using a by (simp add: points_for_prediction_def outcome_sgn)
  show "points_for_prediction m pred = 4 \<longleftrightarrow> (ph, pa) = (ah, aa)"
    unfolding v by simp
  show "points_for_prediction m pred = 3 \<longleftrightarrow> ph - pa = ah - aa \<and> (ph, pa) \<noteq> (ah, aa)"
    unfolding v by auto
  show "points_for_prediction m pred = 2 \<longleftrightarrow>
      sgn (ph - pa) = sgn (ah - aa) \<and> ph - pa \<noteq> ah - aa"
    unfolding v by auto
  show "points_for_prediction m pred = 0 \<longleftrightarrow> sgn (ph - pa) \<noteq> sgn (ah - aa)"
    unfolding v by auto
qed

theorem points_for_prediction_scale_witness:
  "points_for_prediction
      \<lparr>match_id = 1, match_tournament = 1, matchday = Some 1, home_score = None, away_score = Some 1\<rparr>
      (Some \<lparr>pred_user = 1, pred_group = 1, pred_match = 1, pred_home = Some 2, pred_away = Some 1\<rparr>) = 0
   \<and> points_for_prediction
      \<lparr>match_id = 1, match_tournament = 1, matchday = Some 1, home_score = Some 2, away_score = Some 1\<rparr>
      (Some \<lparr>pred_user = 1, pred_group = 1, pred_match = 1, pred_home = Some 3, pred_away = Some 2\<rparr>) = 3"
proof -
  let ?n = "\<lparr>match_id = 1, match_tournament = 1, matchday = Some 1,
      home_score = None, away_score = Some (1::int)\<rparr>"
  let ?m = "\<lparr>match_id = 1, match_tournament = 1, matchday = Some 1,
      home_score = Some (2::int), away_score = Some (1::int)\<rparr>"
  let ?p = "\<lparr>pred_user = 1, pred_group = 1, pred_match = 1,
      pred_home = Some (3::int), pred_away = Some (2::int)\<rparr>"
  let ?q = "\<lparr>pred_user = 1, pred_group = 1, pred_match = 1,
      pred_home = Some (2::int), pred_away = Some (1::int)\<rparr>"
  have "points_for_prediction ?n (Some ?q) = 0"
    using points_for_prediction_scale [of "Some ?q" ?n] by simp
  moreover have "points_for_prediction ?m (Some ?p) = 3"
    using points_for_prediction_scale [of "Some ?p" ?m] by simp
  ultimately show ?thesis by simp
qed

text \<open>
  Claim C8. The match scorer only returns 0, 2, 3 or 4, and relabelling home and away on
  both the result and the prediction leaves the score unchanged.
\<close>

theorem points_for_prediction_range_symmetric:
  "points_for_prediction m pred \<in> {0, 2, 3, 4}
   \<and> points_for_prediction (swap_match m) (map_option swap_prediction pred)
       = points_for_prediction m pred"
proof
  show "points_for_prediction m pred \<in> {0, 2, 3, 4}"
    by (simp add: points_for_prediction_def split: option.splits)
next
  have d: "a - b = c - d \<longleftrightarrow> b - a = d - c" for a b c d :: int
    by auto
  have s: "sgn (a - b) = sgn (c - d) \<longleftrightarrow> sgn (b - a) = sgn (d - c)" for a b c d :: int
    by (auto simp: sgn_if split: if_splits)
  show "points_for_prediction (swap_match m) (map_option swap_prediction pred)
       = points_for_prediction m pred"
    using d s
    by (cases pred)
      (auto simp: points_for_prediction_def swap_match_def swap_prediction_def outcome_sgn)
qed

section \<open>Properties of the bonus scorer\<close>

lemma empty_notin_relegated_set: "[] \<notin> relegated_set py t"
  by (auto simp: relegated_set_def)

lemma is_relegation_single_answer: "is_relegation bp \<Longrightarrow> single_answer py t (bonus_type bp) = None"
  unfolding is_relegation_def single_answer_def by (elim disjE) simp_all

lemma bonus_step_relegation:
  assumes "is_relegation bp"
  shows "bonus_step py t bp (pts, counted) =
     (if norm py (bp_value bp) \<in> relegated_set py t \<and> norm py (bp_value bp) \<notin> counted
      then (pts + 5, insert (norm py (bp_value bp)) counted) else (pts, counted))"
proof -
  have rel: "bonus_type bp = ''relegation1'' \<or> bonus_type bp = ''relegation2''"
    using assms by (simp add: is_relegation_def)
  have ne: "bonus_type bp \<noteq> ''herbstmeister''" "bonus_type bp \<noteq> ''meister''"
    "bonus_type bp \<noteq> ''trainer_first''" "bonus_type bp \<noteq> ''topscorer''"
    using rel by (elim disjE; simp)+
  have nonempty: "norm py (bp_value bp) \<in> relegated_set py t \<Longrightarrow> norm py (bp_value bp) \<noteq> []"
    using empty_notin_relegated_set [of py t] by auto
  have inh: "norm py (bp_value bp) \<in> relegated_set py t \<Longrightarrow> relegated_set py t \<noteq> {}"
    by auto
  show ?thesis
    unfolding bonus_step_def Let_def fst_conv snd_conv
    using rel ne nonempty inh by (simp only: simp_thms if_False if_True split: if_splits) auto
qed

lemma bonus_step_single:
  assumes "\<not> is_relegation bp"
  shows "bonus_step py t bp (pts, counted) =
     (if correct_single py t bp then (pts + 5, counted) else (pts, counted))"
proof -
  have rel: "\<not> (bonus_type bp = ''relegation1'' \<or> bonus_type bp = ''relegation2'')"
    using assms by (simp add: is_relegation_def)
  show ?thesis
  proof (cases "norm py (bp_value bp) = []")
    case True
    then show ?thesis
      by (simp add: bonus_step_def Let_def correct_single_def)
  next
    case False
    consider (h) "bonus_type bp = ''herbstmeister''" | (m) "bonus_type bp = ''meister''"
      | (tf) "bonus_type bp = ''trainer_first''" | (ts) "bonus_type bp = ''topscorer''"
      | (other) "bonus_type bp \<noteq> ''herbstmeister''" "bonus_type bp \<noteq> ''meister''"
          "bonus_type bp \<noteq> ''trainer_first''" "bonus_type bp \<noteq> ''topscorer''"
      by blast
    then show ?thesis
    proof cases
      case h
      with False show ?thesis
        unfolding bonus_step_def Let_def correct_single_def single_answer_def fst_conv snd_conv
        by auto
    next
      case m
      with False show ?thesis
        unfolding bonus_step_def Let_def correct_single_def single_answer_def fst_conv snd_conv
        by auto
    next
      case tf
      with False show ?thesis
        unfolding bonus_step_def Let_def correct_single_def single_answer_def fst_conv snd_conv
        by auto
    next
      case ts
      with False show ?thesis
        unfolding bonus_step_def Let_def correct_single_def single_answer_def fst_conv snd_conv
        by auto
    next
      case other
      with False rel show ?thesis
        unfolding bonus_step_def Let_def correct_single_def single_answer_def fst_conv snd_conv
        by simp
    qed
  qed
qed

lemma correct_single_not_relegation: "correct_single py t bp \<Longrightarrow> \<not> is_relegation bp"
  by (auto simp: correct_single_def is_relegation_single_answer)

lemma bonus_step_eq:
  "bonus_step py t bp (pts, counted) =
     (pts + (if correct_single py t bp then 5 else 0)
          + (if correct_relegation py t bp \<and> norm py (bp_value bp) \<notin> counted then 5 else 0),
      if correct_relegation py t bp then insert (norm py (bp_value bp)) counted else counted)"
proof (cases "is_relegation bp")
  case True
  then have "\<not> correct_single py t bp"
    using correct_single_not_relegation by blast
  then show ?thesis
    using True by (auto simp: bonus_step_relegation correct_relegation_def)
next
  case False
  then have "\<not> correct_relegation py t bp"
    by (simp add: correct_relegation_def)
  then show ?thesis
    using False by (simp add: bonus_step_single)
qed

lemma finite_credited: "finite (credited py t preds)"
  by (simp add: credited_def)

lemma credited_Cons:
  "credited py t (bp # preds) =
     (if correct_relegation py t bp then insert (norm py (bp_value bp)) (credited py t preds)
      else credited py t preds)"
  by (auto simp: credited_def)

lemma card_insert_diff:
  assumes "finite R"
  shows "card (insert v R - C) = (if v \<in> C then 0 else 1) + card (R - insert v C)"
proof (cases "v \<in> C")
  case True
  then have "insert v C = C" by (rule insert_absorb)
  then show ?thesis using True by (simp add: insert_Diff_if)
next
  case False
  have e: "insert v R - C = insert v (R - insert v C)"
    using False by blast
  have "v \<notin> R - insert v C" by blast
  moreover have "finite (R - insert v C)" using assms by (rule finite_Diff)
  ultimately have "card (insert v (R - insert v C)) = Suc (card (R - insert v C))"
    by (rule card_insert_disjoint [rotated])
  then show ?thesis
    using False by (simp only: e if_False)
qed

lemma fold_bonus_step:
  "fold (bonus_step py t) preds (pts, counted) =
     (pts + 5 * int (length (filter (correct_single py t) preds))
          + 5 * int (card (credited py t preds - counted)),
      counted \<union> credited py t preds)"
proof (induction preds arbitrary: pts counted)
  case Nil
  show ?case by (simp add: credited_def)
next
  case (Cons bp preds)
  let ?v = "norm py (bp_value bp)"
  show ?case
  proof (cases "correct_relegation py t bp")
    case True
    then have ns: "\<not> correct_single py t bp"
      using correct_single_not_relegation [of py t bp] by (auto simp: correct_relegation_def)
    have c: "credited py t (bp # preds) = insert ?v (credited py t preds)"
      using True by (simp add: credited_Cons)
    have k: "card (insert ?v (credited py t preds) - counted)
        = (if ?v \<in> counted then 0 else 1) + card (credited py t preds - insert ?v counted)"
      by (rule card_insert_diff [OF finite_credited])
    have u: "counted \<union> insert ?v (credited py t preds) = insert ?v counted \<union> credited py t preds"
      by blast
    have "fold (bonus_step py t) (bp # preds) (pts, counted)
        = fold (bonus_step py t) preds (pts + (if ?v \<in> counted then 0 else 5), insert ?v counted)"
      using True ns by (simp add: bonus_step_eq)
    also have "\<dots> = (pts + (if ?v \<in> counted then 0 else 5)
          + 5 * int (length (filter (correct_single py t) preds))
          + 5 * int (card (credited py t preds - insert ?v counted)),
        insert ?v counted \<union> credited py t preds)"
      by (rule Cons.IH)
    also have "\<dots> = (pts + 5 * int (length (filter (correct_single py t) (bp # preds)))
          + 5 * int (card (insert ?v (credited py t preds) - counted)),
        counted \<union> insert ?v (credited py t preds))"
      unfolding k u using ns by simp
    finally show ?thesis unfolding c .
  next
    case False
    then have c: "credited py t (bp # preds) = credited py t preds"
      by (simp add: credited_Cons)
    have "fold (bonus_step py t) (bp # preds) (pts, counted)
        = fold (bonus_step py t) preds (pts + (if correct_single py t bp then 5 else 0), counted)"
      using False by (simp add: bonus_step_eq)
    also have "\<dots> = (pts + (if correct_single py t bp then 5 else 0)
          + 5 * int (length (filter (correct_single py t) preds))
          + 5 * int (card (credited py t preds - counted)),
        counted \<union> credited py t preds)"
      by (rule Cons.IH)
    also have "\<dots> = (pts + 5 * int (length (filter (correct_single py t) (bp # preds)))
          + 5 * int (card (credited py t preds - counted)),
        counted \<union> credited py t preds)"
      by simp
    finally show ?thesis unfolding c .
  qed
qed

lemma bonus_points_closed_form:
  "bonus_points_for_user py t preds =
     5 * int (length (filter (correct_single py t) preds)) + 5 * int (card (credited py t preds))"
  by (simp add: bonus_points_for_user_def fold_bonus_step)

lemma credited_filter_not_relegation:
  "credited py t (filter (\<lambda>bp. \<not> is_relegation bp) preds) = {}"
  by (auto simp: credited_def correct_relegation_def)

lemma filter_single_filter:
  "filter (correct_single py t) (filter (\<lambda>bp. \<not> is_relegation bp) preds) = filter (correct_single py t) preds"
  by (induction preds) (auto dest: correct_single_not_relegation)

lemma bonus_points_split:
  "bonus_points_for_user py t preds
     = bonus_points_for_user py t (filter (\<lambda>bp. \<not> is_relegation bp) preds)
       + 5 * int (card (credited py t preds))"
  unfolding bonus_points_closed_form credited_filter_not_relegation filter_single_filter
  by simp

lemma credited_mset:
  assumes "mset preds' = mset preds"
  shows "credited py t preds' = credited py t preds"
proof -
  have "set preds' = set preds" using assms by (rule mset_eq_setD)
  then show ?thesis by (simp only: credited_def)
qed

lemma length_filter_mset:
  assumes "mset preds' = mset preds"
  shows "length (filter P preds') = length (filter P preds)"
proof -
  have "mset (filter P preds') = mset (filter P preds)"
    using assms by (simp only: mset_filter)
  then have "size (mset (filter P preds')) = size (mset (filter P preds))"
    by (rule arg_cong)
  then show ?thesis by (simp only: size_mset)
qed

text \<open>
  Claim C2. Within one call, a normalised value is credited at most once across the
  relegation slots: the score of a list of predictions is the score of its predictions
  for the other categories plus 5 for every distinct normalised value that a relegation
  prediction names correctly, however many predictions name it. With the relegated teams
  \<open>X\<close> and \<open>Y\<close> and the pick \<open>X\<close> in both slots the score is 5.
\<close>

theorem bonus_relegation_counted_once:
  "bonus_points_for_user py t preds
     = bonus_points_for_user py t (filter (\<lambda>bp. \<not> is_relegation bp) preds)
       + 5 * int (card ((\<lambda>bp. norm py (bp_value bp)) ` {bp \<in> set preds. correct_relegation py t bp}))
   \<and> bonus_points_for_user ascii_str
        \<lparr>tournament_id = 1, season_start = None, autumn_champion = [], champion = [],
         first_coach_sacked = [], top_scorer = [], relegated_teams = ''X,Y''\<rparr>
        [\<lparr>bp_user = 1, bp_group = 1, bp_tournament = 1, bonus_type = ''relegation1'', bp_value = ''X''\<rparr>,
         \<lparr>bp_user = 1, bp_group = 1, bp_tournament = 1, bonus_type = ''relegation2'', bp_value = ''X''\<rparr>]
       = 5"
proof
  show "bonus_points_for_user py t preds
     = bonus_points_for_user py t (filter (\<lambda>bp. \<not> is_relegation bp) preds)
       + 5 * int (card ((\<lambda>bp. norm py (bp_value bp)) ` {bp \<in> set preds. correct_relegation py t bp}))"
    using bonus_points_split [of py t preds] by (simp add: credited_def)
next
  show "bonus_points_for_user ascii_str
        \<lparr>tournament_id = 1, season_start = None, autumn_champion = [], champion = [],
         first_coach_sacked = [], top_scorer = [], relegated_teams = ''X,Y''\<rparr>
        [\<lparr>bp_user = 1, bp_group = 1, bp_tournament = 1, bonus_type = ''relegation1'', bp_value = ''X''\<rparr>,
         \<lparr>bp_user = 1, bp_group = 1, bp_tournament = 1, bonus_type = ''relegation2'', bp_value = ''X''\<rparr>]
       = 5"
    by code_simp
qed

text \<open>
  Claim C9. The bonus score is 5 times the number of correct predictions for the four
  single-valued categories plus 5 times the number of distinct correct relegation values,
  and so it is the same for every reordering of the list of predictions.
\<close>

theorem bonus_points_permutation_invariant:
  "bonus_points_for_user py t preds =
     5 * int (length (filter (correct_single py t) preds))
     + 5 * int (card ((\<lambda>bp. norm py (bp_value bp)) ` {bp \<in> set preds. correct_relegation py t bp}))
   \<and> (mset preds' = mset preds \<longrightarrow>
        bonus_points_for_user py t preds' = bonus_points_for_user py t preds)"
proof (intro conjI impI)
  show "bonus_points_for_user py t preds =
     5 * int (length (filter (correct_single py t) preds))
     + 5 * int (card ((\<lambda>bp. norm py (bp_value bp)) ` {bp \<in> set preds. correct_relegation py t bp}))"
    using bonus_points_closed_form [of py t preds] by (simp add: credited_def)
next
  assume "mset preds' = mset preds"
  then show "bonus_points_for_user py t preds' = bonus_points_for_user py t preds"
    using credited_mset [of preds' preds py t] length_filter_mset [of preds' preds "correct_single py t"]
    by (simp add: bonus_points_closed_form)
qed

theorem bonus_points_permutation_invariant_witness:
  "bonus_points_for_user ascii_str
      \<lparr>tournament_id = 1, season_start = None, autumn_champion = [], champion = ''M'',
       first_coach_sacked = [], top_scorer = [], relegated_teams = ''X,Y''\<rparr>
      [\<lparr>bp_user = 1, bp_group = 1, bp_tournament = 1, bonus_type = ''meister'', bp_value = ''m''\<rparr>,
       \<lparr>bp_user = 1, bp_group = 1, bp_tournament = 1, bonus_type = ''relegation1'', bp_value = ''X''\<rparr>]
    = bonus_points_for_user ascii_str
      \<lparr>tournament_id = 1, season_start = None, autumn_champion = [], champion = ''M'',
       first_coach_sacked = [], top_scorer = [], relegated_teams = ''X,Y''\<rparr>
      [\<lparr>bp_user = 1, bp_group = 1, bp_tournament = 1, bonus_type = ''relegation1'', bp_value = ''X''\<rparr>,
       \<lparr>bp_user = 1, bp_group = 1, bp_tournament = 1, bonus_type = ''meister'', bp_value = ''m''\<rparr>]"
proof -
  let ?t = "\<lparr>tournament_id = 1, season_start = None, autumn_champion = [], champion = ''M'',
       first_coach_sacked = [], top_scorer = [], relegated_teams = ''X,Y''\<rparr>"
  let ?a = "\<lparr>bp_user = 1, bp_group = 1, bp_tournament = 1, bonus_type = ''meister'', bp_value = ''m''\<rparr>"
  let ?b = "\<lparr>bp_user = 1, bp_group = 1, bp_tournament = 1, bonus_type = ''relegation1'', bp_value = ''X''\<rparr>"
  have "mset [?a, ?b] = mset [?b, ?a] \<longrightarrow>
      bonus_points_for_user ascii_str ?t [?a, ?b] = bonus_points_for_user ascii_str ?t [?b, ?a]"
    using bonus_points_permutation_invariant [of ascii_str ?t "[?b, ?a]" "[?a, ?b]"] by (rule conjunct2)
  moreover have "mset [?a, ?b] = mset [?b, ?a]"
    by (simp add: add_mset_commute)
  ultimately show ?thesis by (rule mp)
qed

section \<open>Properties of the leaderboard\<close>

subsection \<open>Dictionaries filled by loops\<close>

lemma fold_upd_inner:
  assumes "\<And>b. b \<in> set bs \<Longrightarrow> v b = V (kb b)"
  shows "fold (\<lambda>b d. d((x, kb b) \<mapsto> v b)) bs d0 (x', y) =
     (if x' = x \<and> y \<in> kb ` set bs then Some (V y) else d0 (x', y))"
  using assms
proof (induction bs arbitrary: d0)
  case Nil
  show ?case by simp
next
  case (Cons b bs)
  have vb: "v b = V (kb b)" using Cons.prems by simp
  have "fold (\<lambda>b d. d((x, kb b) \<mapsto> v b)) (b # bs) d0 (x', y)
      = fold (\<lambda>b d. d((x, kb b) \<mapsto> v b)) bs (d0((x, kb b) \<mapsto> v b)) (x', y)"
    by (simp only: fold_Cons o_apply)
  also have "\<dots> = (if x' = x \<and> y \<in> kb ` set bs then Some (V y)
      else (d0((x, kb b) \<mapsto> v b)) (x', y))"
    by (rule Cons.IH) (simp add: Cons.prems)
  also have "\<dots> = (if x' = x \<and> y \<in> kb ` set (b # bs) then Some (V y) else d0 (x', y))"
    using vb by auto
  finally show ?case .
qed

lemma fold_upd_nested:
  assumes "\<And>a b. a \<in> set as \<Longrightarrow> b \<in> set bs \<Longrightarrow> v a b = V (ka a) (kb b)"
  shows "fold (\<lambda>a d. fold (\<lambda>b d. d((ka a, kb b) \<mapsto> v a b)) bs d) as d0 (x, y) =
     (if x \<in> ka ` set as \<and> y \<in> kb ` set bs then Some (V x y) else d0 (x, y))"
  using assms
proof (induction as arbitrary: d0)
  case Nil
  show ?case by simp
next
  case (Cons a as)
  have inner: "fold (\<lambda>b d. d((ka a, kb b) \<mapsto> v a b)) bs d0 (x, y) =
      (if x = ka a \<and> y \<in> kb ` set bs then Some (V (ka a) y) else d0 (x, y))"
    by (rule fold_upd_inner) (simp add: Cons.prems)
  have "fold (\<lambda>a d. fold (\<lambda>b d. d((ka a, kb b) \<mapsto> v a b)) bs d) (a # as) d0 (x, y)
      = fold (\<lambda>a d. fold (\<lambda>b d. d((ka a, kb b) \<mapsto> v a b)) bs d) as
          (fold (\<lambda>b d. d((ka a, kb b) \<mapsto> v a b)) bs d0) (x, y)"
    by (simp only: fold_Cons o_apply)
  also have "\<dots> = (if x \<in> ka ` set as \<and> y \<in> kb ` set bs then Some (V x y)
      else fold (\<lambda>b d. d((ka a, kb b) \<mapsto> v a b)) bs d0 (x, y))"
    by (rule Cons.IH) (simp add: Cons.prems)
  also have "\<dots> = (if x \<in> ka ` set (a # as) \<and> y \<in> kb ` set bs then Some (V x y) else d0 (x, y))"
    unfolding inner by auto
  finally show ?case .
qed

lemma fold_upd_single:
  "fold (\<lambda>a d. d(ka a \<mapsto> V (ka a))) as d0 x = (if x \<in> ka ` set as then Some (V x) else d0 x)"
  by (induction as arbitrary: d0) auto

subsection \<open>Matchday aggregates\<close>

lemma points_no_result:
  "home_score m = None \<or> away_score m = None \<Longrightarrow> points_for_prediction m p = 0"
  by (auto simp: points_for_prediction_def split: option.splits)

lemma md_scan_fold:
  "fold (\<lambda>m (scored_any, tot).
             if home_score m = None \<or> away_score m = None then (scored_any, tot)
             else (True, tot + points_for_prediction m (pm (uid, match_id m)))) ms (sa, t0)
   = (sa \<or> any_results ms,
      t0 + sum_list (map (\<lambda>m. points_for_prediction m (pm (uid, match_id m))) ms))"
proof (induction ms arbitrary: sa t0)
  case Nil
  show ?case by (simp add: any_results_def)
next
  case (Cons m ms)
  show ?case
  proof (cases "home_score m = None \<or> away_score m = None")
    case True
    then have "points_for_prediction m (pm (uid, match_id m)) = 0" by (rule points_no_result)
    with True show ?thesis by (auto simp: Cons.IH any_results_def)
  next
    case False
    then show ?thesis by (auto simp: Cons.IH any_results_def)
  qed
qed

lemma md_points_cell_eq:
  "md_points_cell ms pm uid md =
     (if any_results (matches_by_md ms md)
      then Some (sum_list (map (\<lambda>m. points_for_prediction m (pm (uid, match_id m)))
                   (matches_by_md ms md)))
      else None)"
  by (simp add: md_points_cell_def md_scan_def md_scan_fold Let_def any_results_def)

lemma md_points_of_lookup:
  "md_points_of users shown ms pm (uid, md) =
     (if uid \<in> user_id ` set users \<and> md \<in> set shown
      then Some (md_points_cell ms pm uid md) else None)"
proof -
  let ?d0 = "fold (\<lambda>u d. fold (\<lambda>md d. d((user_id u, md) \<mapsto> None)) shown d) users Map.empty"
  have b: "?d0 (uid, md)
     = (if uid \<in> user_id ` set users \<and> md \<in> (\<lambda>x. x) ` set shown
        then Some None else Map.empty (uid, md))"
    by (rule fold_upd_nested [where kb = "\<lambda>x. x" and V = "\<lambda>_ _. None"]) simp
  have "md_points_of users shown ms pm (uid, md)
     = fold (\<lambda>u d. fold (\<lambda>md d. d((user_id u, md) \<mapsto> md_points_cell ms pm (user_id u) md))
                          shown d) users ?d0 (uid, md)"
    by (simp only: md_points_of_def Let_def)
  also have "\<dots> = (if uid \<in> user_id ` set users \<and> md \<in> (\<lambda>x. x) ` set shown
        then Some (md_points_cell ms pm uid md) else ?d0 (uid, md))"
    by (rule fold_upd_nested [where kb = "\<lambda>x. x"]) simp
  also have "\<dots> = (if uid \<in> user_id ` set users \<and> md \<in> set shown
      then Some (md_points_cell ms pm uid md) else None)"
    unfolding b by simp
  finally show ?thesis .
qed

lemma window_matches_by_md:
  "md \<in> set shown \<Longrightarrow>
   matches_by_md (window_matches ms t shown) md
     = filter (\<lambda>m. match_tournament m = tournament_id t \<and> matchday m = Some md) ms"
  by (induction ms) (auto simp: matches_by_md_def window_matches_def)

subsection \<open>The column window\<close>

lemma distinct_matchdays: "distinct (matchdays r)"
  by (simp add: matchdays_def matchdays_of_def)

lemma sorted_matchdays: "sorted (matchdays r)"
  by (simp add: matchdays_def matchdays_of_def)

text \<open>
  Claim C7. Whatever offset and count are requested, with at least one matchday the
  window is computed and nothing is rejected: the count is clamped into 4 to 15, a
  negative offset becomes 0, an offset at or beyond the number of matchdays becomes
  \<open>max 0 (n - count)\<close>, any other offset is kept, and the window is the non-empty
  slice of the matchdays that starts at the offset.
\<close>

theorem tabelle_window_clamped:
  assumes "matchdays r \<noteq> []"
    and "c = (case get_count r of None \<Rightarrow> 8 | Some x \<Rightarrow> x)"
    and "f = (case get_from r of None \<Rightarrow> 0 | Some x \<Rightarrow> x)"
    and "n = int (length (matchdays r))"
  shows "count_md r = (if c < 4 then 4 else if c > 15 then 15 else c)
    \<and> 4 \<le> count_md r \<and> count_md r \<le> 15
    \<and> from_idx r = (if f < 0 then 0 else if f \<ge> n then max 0 (n - count_md r) else f)
    \<and> 0 \<le> from_idx r \<and> from_idx r < n
    \<and> shown_matchdays r = take (nat (count_md r)) (drop (nat (from_idx r)) (matchdays r))
    \<and> shown_matchdays r \<noteq> []"
proof -
  have n: "0 < n" using assms(1,4) by simp
  have c: "count_md r = (if c < 4 then 4 else if c > 15 then 15 else c)"
    using assms(2) by (simp add: count_md_def clamp_count_def)
  then have cb: "4 \<le> count_md r" "count_md r \<le> 15"
    by (simp_all split: if_splits)
  have f: "from_idx r = (if f < 0 then 0 else if f \<ge> n then max 0 (n - count_md r) else f)"
    using assms(3,4) n by (auto simp: from_idx_def clamp_from_def Let_def)
  have fb: "0 \<le> from_idx r" "from_idx r < n"
    using n cb unfolding f by (simp_all split: if_splits)
  have "nat (from_idx r) < length (matchdays r)"
    using fb assms(4) by simp
  then have "drop (nat (from_idx r)) (matchdays r) \<noteq> []"
    by simp
  moreover have "0 < nat (count_md r)" using cb by simp
  ultimately have "shown_matchdays r \<noteq> []"
    by (simp add: shown_matchdays_def take_eq_Nil)
  with c cb f fb show ?thesis
    by (simp add: shown_matchdays_def)
qed

theorem tabelle_window_clamped_witness:
  "matchdays example_request \<noteq> []
   \<and> count_md example_request = 8
   \<and> from_idx example_request = 0
   \<and> shown_matchdays example_request = [1, 2, 3]"
proof -
  have h: "matchdays example_request \<noteq> []" by code_simp
  have m: "matchdays example_request = [1, 2, 3]" by code_simp
  have gc: "get_count example_request = None" and gf: "get_from example_request = Some 7"
    by (simp_all add: example_request_def)
  have "count_md example_request = 8 \<and> from_idx example_request = 0
      \<and> shown_matchdays example_request = [1, 2, 3]"
    using tabelle_window_clamped [OF h refl refl refl] by (simp add: gc gf m)
  with h show ?thesis by simp
qed

subsection \<open>The aggregate of a shown matchday\<close>

text \<open>
  Claim C4. For a user of the group and a shown matchday, the stored aggregate is
  \<open>None\<close> when no match of the matchday has a result, whatever predictions exist, and
  otherwise it is the sum of the match scorer over all matches of the matchday, to which
  a match without a result contributes 0.
\<close>

theorem md_points_none_until_result:
  assumes "u \<in> set (req_users r)" and "md \<in> set (shown_matchdays r)"
    and "md_matches = filter (\<lambda>m. match_tournament m = tournament_id (req_tournament r)
            \<and> matchday m = Some md) (match_objects r)"
    and "pm = pred_map (all_preds (prediction_objects r) (req_group r) (matches r) (req_users r))"
  shows "md_points r (user_id u, md) =
      Some (if \<exists>m \<in> set md_matches. home_score m \<noteq> None \<and> away_score m \<noteq> None
            then Some (\<Sum>m\<leftarrow>md_matches. points_for_prediction m (pm (user_id u, match_id m)))
            else None)
    \<and> (\<forall>m \<in> set md_matches. home_score m = None \<or> away_score m = None \<longrightarrow>
          points_for_prediction m (pm (user_id u, match_id m)) = 0)"
proof
  have mm: "matches_by_md (matches r) md = md_matches"
    using assms(2,3) by (simp add: matches_def window_matches_by_md)
  have "md_points r (user_id u, md) = Some (md_points_cell (matches r) pm (user_id u) md)"
    using assms(1,2,4) by (simp add: md_points_def md_points_of_lookup)
  then show "md_points r (user_id u, md) =
      Some (if \<exists>m \<in> set md_matches. home_score m \<noteq> None \<and> away_score m \<noteq> None
            then Some (\<Sum>m\<leftarrow>md_matches. points_for_prediction m (pm (user_id u, match_id m)))
            else None)"
    by (simp add: md_points_cell_eq mm any_results_def list_ex_iff)
next
  show "\<forall>m \<in> set md_matches. home_score m = None \<or> away_score m = None \<longrightarrow>
          points_for_prediction m (pm (user_id u, match_id m)) = 0"
    by (simp add: points_no_result)
qed

theorem md_points_none_until_result_witness:
  "md_points example_request (1, 3) = Some None
   \<and> md_points example_request (3, 1) = Some (Some 0)"
proof -
  let ?r = example_request
  let ?u1 = "\<lparr>user_id = 1, username = ''Ana''\<rparr>"
  let ?u3 = "\<lparr>user_id = 3, username = ''Cy''\<rparr>"
  let ?pm = "pred_map (all_preds (prediction_objects ?r) (req_group ?r) (matches ?r) (req_users ?r))"
  let ?ms = "\<lambda>md. filter (\<lambda>m. match_tournament m = tournament_id (req_tournament ?r)
            \<and> matchday m = Some md) (match_objects ?r)"
  have u1: "?u1 \<in> set (req_users ?r)" and u3: "?u3 \<in> set (req_users ?r)"
    by (simp_all add: example_request_def example_users_def)
  have s: "shown_matchdays ?r = [1, 2, 3]" by code_simp
  have m1: "(1::int) \<in> set (shown_matchdays ?r)" and m3: "(3::int) \<in> set (shown_matchdays ?r)"
    by (simp_all add: s)
  have e1: "(if \<exists>m \<in> set (?ms 3). home_score m \<noteq> None \<and> away_score m \<noteq> None
            then Some (\<Sum>m\<leftarrow>?ms 3. points_for_prediction m (?pm (user_id ?u1, match_id m)))
            else None) = None"
    by code_simp
  have e3: "(if \<exists>m \<in> set (?ms 1). home_score m \<noteq> None \<and> away_score m \<noteq> None
            then Some (\<Sum>m\<leftarrow>?ms 1. points_for_prediction m (?pm (user_id ?u3, match_id m)))
            else None) = Some 0"
    by code_simp
  have "md_points ?r (user_id ?u1, 3) = Some None"
    by (simp only: md_points_none_until_result [OF u1 m3 refl refl, THEN conjunct1] e1)
  moreover have "md_points ?r (user_id ?u3, 1) = Some (Some 0)"
    by (simp only: md_points_none_until_result [OF u3 m1 refl refl, THEN conjunct1] e3)
  ultimately show ?thesis by simp
qed

subsection \<open>Ranks per matchday\<close>

lemma above_split:
  assumes "\<forall>e \<in> set ys. fst e > p" and "\<forall>e \<in> set xs. fst e \<le> p"
  shows "above (ys @ xs) p = int (length ys)"
proof -
  have "filter (\<lambda>e. fst e > p) ys = ys" using assms(1) by (simp add: filter_id_conv)
  moreover have "filter (\<lambda>e. fst e > p) xs = []" using assms(2) by (auto simp: filter_empty_conv)
  ultimately show ?thesis by (simp add: above_def)
qed

lemma desc_append_Cons:
  fixes x :: "int \<times> 'a"
  assumes "sorted (map (\<lambda>e. - fst e) (ys @ x # xs))"
  shows "\<forall>e \<in> set ys. fst x \<le> fst e" and "\<forall>e \<in> set (x # xs). fst e \<le> fst x"
    and "ys \<noteq> [] \<Longrightarrow> \<forall>e \<in> set ys. fst (last ys) \<le> fst e"
proof -
  have s: "sorted (map (\<lambda>e. - fst e) ys)" "sorted (map (\<lambda>e. - fst e) (x # xs))"
    "\<forall>a \<in> set ys. \<forall>b \<in> set (x # xs). - fst a \<le> - fst b"
    using assms by (auto simp: sorted_append)
  show "\<forall>e \<in> set ys. fst x \<le> fst e" using s(3) by fastforce
  show "\<forall>e \<in> set (x # xs). fst e \<le> fst x" using s(2) by auto
  show "\<forall>e \<in> set ys. fst (last ys) \<le> fst e" if ne: "ys \<noteq> []"
  proof -
    obtain zs z where ys: "ys = zs @ [z]" using ne by (metis rev_exhaust)
    have "sorted (map (\<lambda>e. - fst e) (zs @ [z]))" using s(1) ys by simp
    then have "\<forall>a \<in> set zs. - fst a \<le> - fst z" by (auto simp: sorted_append)
    then show ?thesis using ys by auto
  qed
qed

lemma rank_loop_lookup:
  assumes "sorted (map (\<lambda>e. - fst e) (ys @ xs))"
    and "idx = int (length ys) + 1"
    and "ys = [] \<Longrightarrow> last_pts = None"
    and "ys \<noteq> [] \<Longrightarrow> last_pts = Some (fst (last ys)) \<and> rank = 1 + above (ys @ xs) (fst (last ys))"
    and "\<forall>e \<in> set (ys @ xs). fst e = P (snd (snd e))"
  shows "rank_loop idx rank last_pts xs d k =
     (if k \<in> (\<lambda>e. snd (snd e)) ` set xs then Some (Some (1 + above (ys @ xs) (P k))) else d k)"
  using assms
proof (induction xs arbitrary: ys idx rank last_pts d)
  case Nil
  show ?case by simp
next
  case (Cons x xs)
  obtain pts name uid where x: "x = (pts, name, uid)" by (cases x) auto
  let ?whole = "ys @ x # xs"
  let ?r = "if last_pts = None \<or> Some pts \<noteq> last_pts then idx else rank"
  note d = desc_append_Cons [OF Cons.prems(1)]
  have le: "\<forall>e \<in> set (x # xs). fst e \<le> pts" using d(2) x by simp
  have r: "?r = 1 + above ?whole pts"
  proof (cases "ys = []")
    case True
    then have "above ?whole pts = 0" using above_split [of "[]" pts "x # xs"] le by simp
    then show ?thesis using True Cons.prems(2,3) by simp
  next
    case False
    then have l: "last_pts = Some (fst (last ys))"
      and rk: "rank = 1 + above ?whole (fst (last ys))"
      using Cons.prems(4) by auto
    show ?thesis
    proof (cases "fst (last ys) = pts")
      case True
      then show ?thesis using l rk by simp
    next
      case ne: False
      have "last ys \<in> set ys" using False by simp
      then have "pts \<le> fst (last ys)" using d(1) x by auto
      then have "pts < fst (last ys)" using ne by simp
      then have "\<forall>e \<in> set ys. pts < fst e" using d(3) [OF False] by fastforce
      then have "above ?whole pts = int (length ys)" using le by (rule above_split)
      then show ?thesis using l ne Cons.prems(2) by simp
    qed
  qed
  have step: "rank_loop idx rank last_pts (x # xs) d
      = rank_loop (idx + 1) ?r (Some pts) xs (d(uid \<mapsto> Some ?r))"
    by (auto simp: x)
  have "rank_loop (idx + 1) ?r (Some pts) xs (d(uid \<mapsto> Some ?r)) k
      = (if k \<in> (\<lambda>e. snd (snd e)) ` set xs
         then Some (Some (1 + above ((ys @ [x]) @ xs) (P k))) else (d(uid \<mapsto> Some ?r)) k)"
  proof (rule Cons.IH)
    show "sorted (map (\<lambda>e. - fst e) ((ys @ [x]) @ xs))" using Cons.prems(1) by simp
    show "idx + 1 = int (length (ys @ [x])) + 1" using Cons.prems(2) by simp
    show "Some pts = None" if "ys @ [x] = []" using that by simp
    show "Some pts = Some (fst (last (ys @ [x])))
        \<and> ?r = 1 + above ((ys @ [x]) @ xs) (fst (last (ys @ [x])))"
      using r x by simp
    show "\<forall>e \<in> set ((ys @ [x]) @ xs). fst e = P (snd (snd e))" using Cons.prems(5) by simp
  qed
  moreover have "pts = P uid" using Cons.prems(5) x by simp
  ultimately show ?case
    unfolding step using r x by auto
qed

lemma sorted_rank_key_desc:
  assumes "sorted (map rank_key es)"
  shows "sorted (map (\<lambda>e. - fst e) es)"
proof -
  have "sorted_wrt (\<lambda>a b. rank_key a \<le> rank_key b) es"
    using assms by (simp add: sorted_map)
  then have "sorted_wrt (\<lambda>a b. - fst a \<le> - fst b) es"
    by (rule sorted_wrt_mono_rel [rotated]) (auto simp: rank_key_def less_eq_prod_def)
  then show ?thesis by (simp add: sorted_map)
qed

lemma above_sort_key: "above (sort_key f es) p = above es p"
proof -
  have "mset (filter (\<lambda>e. fst e > p) (sort_key f es)) = mset (filter (\<lambda>e. fst e > p) es)"
    by (simp only: mset_filter mset_sort)
  then have "size (mset (filter (\<lambda>e. fst e > p) (sort_key f es)))
      = size (mset (filter (\<lambda>e. fst e > p) es))"
    by (rule arg_cong)
  then show ?thesis by (simp only: above_def size_mset)
qed

lemma above_sortable:
  "above (sortable py users pts_of) p
     = int (length (filter (\<lambda>u. points_or_zero pts_of (user_id u) > p) users))"
  by (simp add: above_def sortable_def filter_map points_or_zero_def comp_def)

lemma rank_column_lookup:
  assumes "any_results md_matches"
  shows "rank_column py users md_matches pts_of k =
     (if k \<in> user_id ` set users
      then Some (Some (1 + int (length (filter
             (\<lambda>u. points_or_zero pts_of (user_id u) > points_or_zero pts_of k) users))))
      else None)"
proof -
  let ?s = "sort_key rank_key (sortable py users pts_of)"
  have "rank_loop 1 0 None ?s Map.empty k =
     (if k \<in> (\<lambda>e. snd (snd e)) ` set ?s
      then Some (Some (1 + above ([] @ ?s) (points_or_zero pts_of k))) else Map.empty k)"
  proof (rule rank_loop_lookup)
    show "sorted (map (\<lambda>e. - fst e) ([] @ ?s))"
      using sorted_rank_key_desc [of ?s] by simp
    show "\<forall>e \<in> set ([] @ ?s). fst e = points_or_zero pts_of (snd (snd e))"
      by (auto simp: sortable_def points_or_zero_def)
  qed simp_all
  moreover have "(\<lambda>e. snd (snd e)) ` set ?s = user_id ` set users"
    by (force simp: sortable_def)
  ultimately show ?thesis
    using assms by (simp add: rank_column_def above_sort_key above_sortable)
qed

lemma rank_column_no_results:
  assumes "\<not> any_results md_matches"
  shows "rank_column py users md_matches pts_of k =
     (if k \<in> user_id ` set users then Some None else None)"
  using assms fold_upd_single [of user_id "\<lambda>_. None" users Map.empty k]
  by (simp add: rank_column_def)

lemma sortable_points_or_zero:
  "sortable py users (\<lambda>k. Some (points_or_zero pts_of k)) = sortable py users pts_of"
  by (simp add: sortable_def points_or_zero_def)

text \<open>
  Claim C3. On a matchday with a result, the sorted list holds for every user the triple
  of the user's points, the user's username in lower case (\<^verbatim>\<open>str.lower\<close>) and
  the user's id; it is ordered by points descending and, among equal points, by the
  lower-cased username ascending. The rank stored for an entry is one more than the
  number of entries with more points, so entries with equal points share a rank and the
  first entry of each points value receives its 1-based position in the sorted order.
  In the example the points 10, 10, 7, 5, 5 give the ranks 1, 1, 3, 4, 4, and
  \<open>ben\<close> stands before \<open>Dan\<close> and \<open>ana\<close> before \<open>Eve\<close>.
\<close>

theorem rank_column_competition_ranking:
  assumes "any_results md_matches" and "s = sort_key rank_key (sortable py users pts_of)"
  shows "mset s = mset (map (\<lambda>u. (points_or_zero pts_of (user_id u), lower py (username u),
                               user_id u)) users)
    \<and> (\<forall>i j. i < j \<and> j < length s \<longrightarrow>
          fst (s ! j) < fst (s ! i)
          \<or> (fst (s ! j) = fst (s ! i) \<and> fst (snd (s ! i)) \<le> fst (snd (s ! j))))
    \<and> (\<forall>i < length s.
          rank_column py users md_matches pts_of (snd (snd (s ! i)))
            = Some (Some (1 + int (length (filter (\<lambda>e. fst (s ! i) < fst e) s)))))
    \<and> (\<forall>i < length s. i = 0 \<or> fst (s ! (i - 1)) \<noteq> fst (s ! i) \<longrightarrow>
          rank_column py users md_matches pts_of (snd (snd (s ! i))) = Some (Some (int i + 1)))
    \<and> (\<forall>i j. i < length s \<and> j < length s \<and> fst (s ! i) = fst (s ! j) \<longrightarrow>
          rank_column py users md_matches pts_of (snd (snd (s ! i)))
            = rank_column py users md_matches pts_of (snd (snd (s ! j))))
    \<and> sort_key rank_key (sortable ascii_str example_ranking_users example_ranking_points)
        = [(10, ''ben'', 2), (10, ''dan'', 4), (7, ''cy'', 3), (5, ''ana'', 1), (5, ''eve'', 5)]
    \<and> map (rank_column ascii_str example_ranking_users example_ranking_matches example_ranking_points)
          (map (\<lambda>e. snd (snd e))
             (sort_key rank_key (sortable ascii_str example_ranking_users example_ranking_points)))
        = [Some (Some 1), Some (Some 1), Some (Some 3), Some (Some 4), Some (Some 4)]"
proof -
  have m: "mset s = mset (map (\<lambda>u. (points_or_zero pts_of (user_id u), lower py (username u),
                               user_id u)) users)"
    by (simp add: assms(2) sortable_def points_or_zero_def)
  have ex_sorted: "sort_key rank_key (sortable ascii_str example_ranking_users example_ranking_points)
        = [(10, ''ben'', 2), (10, ''dan'', 4), (7, ''cy'', 3), (5, ''ana'', 1), (5, ''eve'', 5)]"
    by code_simp
  have sk: "sorted (map rank_key s)"
    by (simp add: assms(2))
  have desc: "sorted (map (\<lambda>e. - fst e) s)"
    using sk by (rule sorted_rank_key_desc)
  have mono: "fst (s ! j) \<le> fst (s ! i)" if "i \<le> j" "j < length s" for i j
    using desc that sorted_iff_nth_mono [of "map (\<lambda>e. - fst e) s"] by fastforce
  have ord: "fst (s ! j) < fst (s ! i)
          \<or> (fst (s ! j) = fst (s ! i) \<and> fst (snd (s ! i)) \<le> fst (snd (s ! j)))"
    if "i < j" "j < length s" for i j
  proof -
    have "rank_key (s ! i) \<le> rank_key (s ! j)"
      using sk that sorted_iff_nth_mono [of "map rank_key s"] by fastforce
    then show ?thesis
      by (auto simp: rank_key_def less_eq_prod_def)
  qed
  have pz: "fst e = points_or_zero pts_of (snd (snd e))" if "e \<in> set s" for e
    using that by (auto simp: assms(2) sortable_def points_or_zero_def)
  have uid: "snd (snd e) \<in> user_id ` set users" if "e \<in> set s" for e
    using that by (auto simp: assms(2) sortable_def)
  have rk: "rank_column py users md_matches pts_of (snd (snd (s ! i)))
            = Some (Some (1 + above s (fst (s ! i))))" if "i < length s" for i
  proof -
    have e: "s ! i \<in> set s" using that by simp
    have "above s (fst (s ! i)) = above (sortable py users pts_of) (fst (s ! i))"
      unfolding assms(2) by (rule above_sort_key)
    then show ?thesis
      using rank_column_lookup [OF assms(1), of py users pts_of "snd (snd (s ! i))"]
        uid [OF e] pz [OF e] by (simp add: above_sortable)
  qed
  have first: "above s (fst (s ! i)) = int i"
    if "i < length s" "i = 0 \<or> fst (s ! (i - 1)) \<noteq> fst (s ! i)" for i
  proof -
    have "\<forall>e \<in> set (take i s). fst (s ! i) < fst e"
    proof
      fix e assume "e \<in> set (take i s)"
      then obtain j where j: "j < i" "e = s ! j"
        using that(1) by (auto simp: in_set_conv_nth)
      then have i0: "i \<noteq> 0" by simp
      have "fst (s ! (i - 1)) \<le> fst (s ! j)" using j that(1) by (intro mono) simp_all
      moreover have "fst (s ! i) \<le> fst (s ! (i - 1))" using that(1) by (intro mono) simp_all
      moreover have "fst (s ! (i - 1)) \<noteq> fst (s ! i)" using that(2) i0 by simp
      ultimately show "fst (s ! i) < fst e" using j by simp
    qed
    moreover have "\<forall>e \<in> set (drop i s). fst e \<le> fst (s ! i)"
    proof
      fix e assume "e \<in> set (drop i s)"
      then obtain j where "j < length s - i" "e = s ! (i + j)"
        using that(1) by (auto simp: in_set_conv_nth)
      then show "fst e \<le> fst (s ! i)" using mono [of i "i + j"] by simp
    qed
    ultimately have "above (take i s @ drop i s) (fst (s ! i)) = int (length (take i s))"
      by (rule above_split)
    then show ?thesis using that(1) by simp
  qed
  have ex: "map (rank_column ascii_str example_ranking_users example_ranking_matches example_ranking_points)
          (map (\<lambda>e. snd (snd e))
             (sort_key rank_key (sortable ascii_str example_ranking_users example_ranking_points)))
        = [Some (Some 1), Some (Some 1), Some (Some 3), Some (Some 4), Some (Some 4)]"
    by code_simp
  show ?thesis
  proof (intro conjI allI impI)
    show "mset s = mset (map (\<lambda>u. (points_or_zero pts_of (user_id u), lower py (username u),
                               user_id u)) users)"
      by (rule m)
  next
    show "sort_key rank_key (sortable ascii_str example_ranking_users example_ranking_points)
        = [(10, ''ben'', 2), (10, ''dan'', 4), (7, ''cy'', 3), (5, ''ana'', 1), (5, ''eve'', 5)]"
      by (rule ex_sorted)
  next
    fix i j assume "i < j \<and> j < length s"
    then show "fst (s ! j) < fst (s ! i)
          \<or> (fst (s ! j) = fst (s ! i) \<and> fst (snd (s ! i)) \<le> fst (snd (s ! j)))"
      using ord by blast
  next
    fix i assume "i < length s"
    then show "rank_column py users md_matches pts_of (snd (snd (s ! i)))
            = Some (Some (1 + int (length (filter (\<lambda>e. fst (s ! i) < fst e) s))))"
      using rk by (simp add: above_def)
  next
    fix i assume "i < length s" "i = 0 \<or> fst (s ! (i - 1)) \<noteq> fst (s ! i)"
    then show "rank_column py users md_matches pts_of (snd (snd (s ! i))) = Some (Some (int i + 1))"
      using rk first by simp
  next
    fix i j assume "i < length s \<and> j < length s \<and> fst (s ! i) = fst (s ! j)"
    then show "rank_column py users md_matches pts_of (snd (snd (s ! i)))
            = rank_column py users md_matches pts_of (snd (snd (s ! j)))"
      using rk by simp
  next
    show "map (rank_column ascii_str example_ranking_users example_ranking_matches example_ranking_points)
          (map (\<lambda>e. snd (snd e))
             (sort_key rank_key (sortable ascii_str example_ranking_users example_ranking_points)))
        = [Some (Some 1), Some (Some 1), Some (Some 3), Some (Some 4), Some (Some 4)]"
      by (rule ex)
  qed
qed

theorem rank_column_competition_ranking_witness:
  "any_results example_ranking_matches
   \<and> rank_column ascii_str example_ranking_users example_ranking_matches example_ranking_points
        (snd (snd (sort_key rank_key
           (sortable ascii_str example_ranking_users example_ranking_points) ! 2)))
      = Some (Some 3)
   \<and> fst (snd (sort_key rank_key
          (sortable ascii_str example_ranking_users example_ranking_points) ! 3))
      \<le> fst (snd (sort_key rank_key
          (sortable ascii_str example_ranking_users example_ranking_points) ! 4))
   \<and> mset (sort_key rank_key (sortable ascii_str example_ranking_users example_ranking_points))
      = mset [(5, ''ana'', 1), (10, ''ben'', 2), (7, ''cy'', 3), (10, ''dan'', 4), (5, ''eve'', 5)]"
proof -
  let ?s = "sort_key rank_key (sortable ascii_str example_ranking_users example_ranking_points)"
  have h: "any_results example_ranking_matches" by code_simp
  note t = rank_column_competition_ranking
    [OF h refl, of ascii_str example_ranking_users example_ranking_points]
  have l: "2 < length ?s" by code_simp
  have n: "(2::nat) = 0 \<or> fst (?s ! (2 - 1)) \<noteq> fst (?s ! 2)" by code_simp
  have "\<forall>i < length ?s. i = 0 \<or> fst (?s ! (i - 1)) \<noteq> fst (?s ! i) \<longrightarrow>
      rank_column ascii_str example_ranking_users example_ranking_matches example_ranking_points
        (snd (snd (?s ! i))) = Some (Some (int i + 1))"
    using t by blast
  then have r: "rank_column ascii_str example_ranking_users example_ranking_matches
      example_ranking_points (snd (snd (?s ! 2))) = Some (Some (int 2 + 1))"
    using l n by blast
  have "\<forall>i j. i < j \<and> j < length ?s \<longrightarrow>
          fst (?s ! j) < fst (?s ! i)
          \<or> (fst (?s ! j) = fst (?s ! i) \<and> fst (snd (?s ! i)) \<le> fst (snd (?s ! j)))"
    using t by blast
  moreover have "(3::nat) < 4 \<and> 4 < length ?s" by code_simp
  ultimately have "fst (?s ! 4) < fst (?s ! 3)
      \<or> (fst (?s ! 4) = fst (?s ! 3) \<and> fst (snd (?s ! 3)) \<le> fst (snd (?s ! 4)))"
    by blast
  moreover have "\<not> fst (?s ! 4) < fst (?s ! 3)" by code_simp
  ultimately have o: "fst (snd (?s ! 3)) \<le> fst (snd (?s ! 4))" by blast
  have "mset ?s = mset (map (\<lambda>u. (points_or_zero example_ranking_points (user_id u),
      lower ascii_str (username u), user_id u)) example_ranking_users)"
    using t by blast
  moreover have "map (\<lambda>u. (points_or_zero example_ranking_points (user_id u),
      lower ascii_str (username u), user_id u)) example_ranking_users
      = [(5, ''ana'', 1), (10, ''ben'', 2), (7, ''cy'', 3), (10, ''dan'', 4), (5, ''eve'', 5)]"
    by code_simp
  ultimately have m: "mset ?s
      = mset [(5, ''ana'', 1), (10, ''ben'', 2), (7, ''cy'', 3), (10, ''dan'', 4), (5, ''eve'', 5)]"
    by (simp only:)
  from h r o m show ?thesis by simp
qed

text \<open>
  Claim C10. When a match of a shown matchday has a result, every user of the group is
  stored with a numeric rank for that matchday, one more than the number of users with
  more points. A user whose aggregate is \<open>None\<close> is ranked exactly as with 0 points:
  the ranks do not change when every missing aggregate is replaced by 0. (On such a
  matchday the stored aggregate of every user is in fact numeric.)
\<close>

theorem rank_by_md_every_user_ranked:
  assumes "md \<in> set (shown_matchdays r)" and "u \<in> set (req_users r)"
    and "\<exists>m \<in> set (match_objects r). match_tournament m = tournament_id (req_tournament r)
           \<and> matchday m = Some md \<and> home_score m \<noteq> None \<and> away_score m \<noteq> None"
    and "pts_of = (\<lambda>uid. dict_get (md_points r) (uid, md) None)"
  shows "rank_by_md r md (user_id u)
      = Some (Some (1 + int (length (filter
          (\<lambda>v. points_or_zero pts_of (user_id v) > points_or_zero pts_of (user_id u))
          (req_users r)))))
    \<and> rank_column py' users' ms' pts_of' = rank_column py' users' ms' (\<lambda>k. Some (points_or_zero pts_of' k))
    \<and> (\<exists>p. md_points r (user_id u, md) = Some (Some p))"
proof (intro conjI)
  have mm: "matches_by_md (matches r) md
      = filter (\<lambda>m. match_tournament m = tournament_id (req_tournament r) \<and> matchday m = Some md)
          (match_objects r)"
    using assms(1) by (simp add: matches_def window_matches_by_md)
  have ar: "any_results (matches_by_md (matches r) md)"
    unfolding mm any_results_def list_ex_iff using assms(3) by auto
  show "rank_by_md r md (user_id u)
      = Some (Some (1 + int (length (filter
          (\<lambda>v. points_or_zero pts_of (user_id v) > points_or_zero pts_of (user_id u))
          (req_users r)))))"
    using assms(2) rank_column_lookup [OF ar, of "req_str r" "req_users r" pts_of "user_id u"]
    by (simp add: rank_by_md_def assms(4))
  show "rank_column py' users' ms' pts_of' = rank_column py' users' ms' (\<lambda>k. Some (points_or_zero pts_of' k))"
    by (simp only: rank_column_def sortable_points_or_zero)
  show "\<exists>p. md_points r (user_id u, md) = Some (Some p)"
    using assms(1,2) ar by (simp add: md_points_def md_points_of_lookup md_points_cell_eq)
qed

theorem rank_by_md_every_user_ranked_witness:
  "rank_by_md example_request 1 3 = Some (Some 3)"
proof -
  let ?r = example_request
  let ?u3 = "\<lparr>user_id = 3, username = ''Cy''\<rparr>"
  let ?pts = "\<lambda>uid. dict_get (md_points ?r) (uid, 1) None"
  have u3: "?u3 \<in> set (req_users ?r)"
    by (simp add: example_request_def example_users_def)
  have s: "shown_matchdays ?r = [1, 2, 3]" by code_simp
  have m1: "(1::int) \<in> set (shown_matchdays ?r)" by (simp add: s)
  have res: "\<exists>m \<in> set (match_objects ?r). match_tournament m = tournament_id (req_tournament ?r)
           \<and> matchday m = Some 1 \<and> home_score m \<noteq> None \<and> away_score m \<noteq> None"
    by code_simp
  have e: "1 + int (length (filter
          (\<lambda>v. points_or_zero ?pts (user_id v) > points_or_zero ?pts (user_id ?u3))
          (req_users ?r))) = 3"
    by code_simp
  have "rank_by_md ?r 1 (user_id ?u3) = Some (Some 3)"
    by (simp only: rank_by_md_every_user_ranked [OF m1 u3 res refl, THEN conjunct1] e)
  then show ?thesis by simp
qed

subsection \<open>Rank differences\<close>

lemma distinct_shown_matchdays: "distinct (shown_matchdays r)"
  by (simp add: shown_matchdays_def distinct_matchdays)

lemma rankdiff_of_lookup:
  assumes "distinct shown" and "i < length shown" and "k \<in> user_id ` set users"
  shows "rankdiff_of rk shown users (shown ! i, k) = Some (rankdiff_cell rk shown i k)"
proof -
  let ?V = "\<lambda>md k. rankdiff_cell rk shown (LEAST j. shown ! j = md) k"
  have least: "(LEAST j. shown ! j = shown ! a) = a" if "a < length shown" for a
  proof (rule Least_equality)
    show "shown ! a = shown ! a" by simp
    fix y assume y: "shown ! y = shown ! a"
    show "a \<le> y"
    proof (cases "y < length shown")
      case True
      then have "y = a" using assms(1) that y by (simp add: nth_eq_iff_index_eq)
      then show ?thesis by simp
    next
      case False
      then show ?thesis using that by simp
    qed
  qed
  have "fold (\<lambda>i d. fold (\<lambda>u d. d((shown ! i, user_id u) \<mapsto> rankdiff_cell rk shown i (user_id u)))
                       users d) [0..<length shown] Map.empty (shown ! i, k)
      = (if shown ! i \<in> (\<lambda>i. shown ! i) ` set [0..<length shown] \<and> k \<in> user_id ` set users
         then Some (?V (shown ! i) k) else Map.empty (shown ! i, k))"
    by (rule fold_upd_nested) (simp add: least)
  then show ?thesis
    using assms(2,3) by (simp add: rankdiff_of_def least)
qed

text \<open>
  Claim C6. For a user of the group and the column at index \<open>i\<close> of the window, the
  stored rank difference is \<open>None\<close> for the first column, whatever matchdays lie before
  the window; for a later column it is \<open>None\<close> when the user has no rank in that column
  or in the column just before it in the window, and otherwise the previous rank minus the
  current rank.
\<close>

theorem rankdiff_previous_column:
  assumes "i < length (shown_matchdays r)" and "u \<in> set (req_users r)"
    and "shown = shown_matchdays r"
    and "cur = dict_get (rank_by_md r (shown ! i)) (user_id u) None"
    and "prev = dict_get (rank_by_md r (shown ! (i - 1))) (user_id u) None"
  shows "(i = 0 \<longrightarrow> rankdiff_by_md r (shown ! i, user_id u) = Some None)
    \<and> (0 < i \<and> (cur = None \<or> prev = None) \<longrightarrow>
          rankdiff_by_md r (shown ! i, user_id u) = Some None)
    \<and> (\<forall>p c. 0 < i \<and> prev = Some p \<and> cur = Some c \<longrightarrow>
          rankdiff_by_md r (shown ! i, user_id u) = Some (Some (p - c)))"
proof -
  have "rankdiff_by_md r (shown ! i, user_id u)
      = Some (rankdiff_cell (rank_by_md r) shown i (user_id u))"
    unfolding rankdiff_by_md_def assms(3)
    using assms(1,2) by (intro rankdiff_of_lookup distinct_shown_matchdays) simp_all
  then show ?thesis
    using assms(4,5) by (auto simp: rankdiff_cell_def Let_def)
qed

theorem rankdiff_previous_column_witness:
  "rankdiff_by_md example_request (1, 1) = Some None
   \<and> rankdiff_by_md example_request (2, 1) = Some (Some (- 1))"
proof -
  let ?r = example_request
  let ?u1 = "\<lparr>user_id = 1, username = ''Ana''\<rparr>"
  have u1: "?u1 \<in> set (req_users ?r)"
    by (simp add: example_request_def example_users_def)
  have s: "shown_matchdays ?r = [1, 2, 3]" by code_simp
  have i0: "0 < length (shown_matchdays ?r)" and i1: "1 < length (shown_matchdays ?r)"
    by (simp_all add: s)
  have cur: "dict_get (rank_by_md ?r (shown_matchdays ?r ! 1)) (user_id ?u1) None = Some 2"
    and prev: "dict_get (rank_by_md ?r (shown_matchdays ?r ! (1 - 1))) (user_id ?u1) None = Some 1"
    by code_simp+
  have "rankdiff_by_md ?r (shown_matchdays ?r ! 0, user_id ?u1) = Some None"
    using rankdiff_previous_column [OF i0 u1 refl refl refl] by blast
  moreover have "rankdiff_by_md ?r (shown_matchdays ?r ! 1, user_id ?u1) = Some (Some (1 - 2))"
    using rankdiff_previous_column [OF i1 u1 refl refl refl] cur prev by blast
  ultimately show ?thesis by (simp add: s)
qed

subsection \<open>Season totals\<close>

lemma dict_get_upd: "dict_get (d(k \<mapsto> v)) k' dflt = (if k' = k then v else dict_get d k' dflt)"
  by (simp add: dict_get_def)

lemma add_prediction_points_get:
  "dict_get (add_prediction_points ms pr d) k 0
     = dict_get d k 0 + (if pred_user pr = k then pred_points ms pr else 0)"
  by (cases "match_of ms pr") (auto simp: add_prediction_points_def pred_points_def dict_get_upd)

lemma fold_add_prediction_points_get:
  "dict_get (fold (add_prediction_points ms) prs d) k 0
     = dict_get d k 0 + (\<Sum>pr\<leftarrow>filter (\<lambda>pr. pred_user pr = k) prs. pred_points ms pr)"
proof (induction prs arbitrary: d)
  case Nil
  show ?case by simp
next
  case (Cons pr prs)
  have "dict_get (fold (add_prediction_points ms) (pr # prs) d) k 0
      = dict_get (fold (add_prediction_points ms) prs (add_prediction_points ms pr d)) k 0"
    by simp
  also have "\<dots> = dict_get (add_prediction_points ms pr d) k 0
      + (\<Sum>pr\<leftarrow>filter (\<lambda>pr. pred_user pr = k) prs. pred_points ms pr)"
    by (rule Cons.IH)
  finally show ?case
    by (simp add: add_prediction_points_get)
qed

lemma fold_bonus_add_get:
  fixes B :: "nat \<Rightarrow> int"
  assumes "distinct (map user_id users)"
  shows "dict_get (fold (\<lambda>u d. d(user_id u \<mapsto> dict_get d (user_id u) 0 + B (user_id u))) users d) k 0
     = dict_get d k 0 + (if k \<in> user_id ` set users then B k else 0)"
  using assms
proof (induction users arbitrary: d)
  case Nil
  show ?case by simp
next
  case (Cons u users)
  let ?f = "\<lambda>u d. d(user_id u \<mapsto> dict_get d (user_id u) 0 + B (user_id u))"
  have d: "distinct (map user_id users)" and n: "user_id u \<notin> user_id ` set users"
    using Cons.prems by auto
  have "dict_get (fold ?f (u # users) d) k 0 = dict_get (fold ?f users (?f u d)) k 0"
    by simp
  also have "\<dots> = dict_get (?f u d) k 0 + (if k \<in> user_id ` set users then B k else 0)"
    using d by (rule Cons.IH)
  also have "\<dots> = dict_get d k 0 + (if k \<in> user_id ` set (u # users) then B k else 0)"
    using n by (auto simp: dict_get_upd)
  finally show ?case .
qed

lemma user_init_get: "dict_get (fold (\<lambda>u d. d(user_id u \<mapsto> 0)) users Map.empty) k (0::int) = 0"
  using fold_upd_single [of user_id "\<lambda>_. 0::int" users Map.empty k]
  by (simp add: dict_get_def)

lemma bonus_points_by_user_get:
  assumes "bonus_reveal r" and "k \<in> user_id ` set (req_users r)"
  shows "dict_get (bonus_points_by_user r) k 0 = user_bonus_points r k"
  using assms
    fold_upd_single [of user_id "\<lambda>k. bonus_points_for_user (req_str r) (req_tournament r)
       (bonus_by_user (all_bonus r) k)" "req_users r" Map.empty k]
  by (simp add: bonus_points_by_user_def dict_get_def user_bonus_points_def)

lemma season_total_eq:
  assumes "distinct (map user_id (req_users r))" and "k \<in> user_id ` set (req_users r)"
  shows "season_total r k
     = (\<Sum>pr\<leftarrow>filter (\<lambda>pr. pred_user pr = k) (finished_preds r). pred_points (match_objects r) pr)
       + (if bonus_reveal r then user_bonus_points r k else 0)"
proof (cases "bonus_reveal r")
  case True
  then show ?thesis
    using assms(2)
      fold_bonus_add_get [OF assms(1), of "\<lambda>k. dict_get (bonus_points_by_user r) k 0"]
    by (simp add: season_total_def total_points_all_def Let_def
        fold_add_prediction_points_get user_init_get bonus_points_by_user_get)
next
  case False
  then show ?thesis
    by (simp add: season_total_def total_points_all_def Let_def
        fold_add_prediction_points_get user_init_get)
qed

lemma sum_list_if_none:
  fixes c :: "'a \<Rightarrow> int"
  assumes "\<forall>x \<in> set xs. \<not> Q x"
  shows "(\<Sum>x\<leftarrow>xs. if Q x then c x else 0) = 0"
  using assms by (induction xs) auto

lemma sum_list_if_single:
  fixes c :: int
  assumes "distinct ks" and "k \<in> set ks"
  shows "(\<Sum>k'\<leftarrow>ks. if k' = k then c else 0) = c"
  using assms
proof (induction ks)
  case Nil
  then show ?case by simp
next
  case (Cons a ks)
  show ?case
  proof (cases "a = k")
    case True
    then have "\<forall>x \<in> set ks. \<not> x = k" using Cons.prems(1) by auto
    then have "(\<Sum>k'\<leftarrow>ks. if k' = k then c else 0) = 0" by (rule sum_list_if_none)
    then show ?thesis using True by simp
  next
    case False
    then have "(\<Sum>k'\<leftarrow>ks. if k' = k then c else 0) = c"
      using Cons.prems by (intro Cons.IH) auto
    then show ?thesis using False by simp
  qed
qed

lemma sum_list_filter_Cons:
  fixes f :: "'a \<Rightarrow> int"
  shows "(\<Sum>x\<leftarrow>filter Q (y # ys). f x) = (if Q y then f y else 0) + (\<Sum>x\<leftarrow>filter Q ys. f x)"
  by simp

lemma sum_list_partition_by_key:
  fixes f :: "'a \<Rightarrow> int"
  assumes "distinct ks"
    and "\<forall>x \<in> set xs. Q x \<longrightarrow> key x = None \<or> (\<exists>k \<in> set ks. key x = Some k)"
  shows "(\<Sum>x\<leftarrow>filter Q xs. f x)
     = (\<Sum>x\<leftarrow>filter (\<lambda>x. Q x \<and> key x = None) xs. f x)
       + (\<Sum>k\<leftarrow>ks. \<Sum>x\<leftarrow>filter (\<lambda>x. Q x \<and> key x = Some k) xs. f x)"
  using assms(2)
proof (induction xs)
  case Nil
  show ?case by (simp add: sum_list_0)
next
  case (Cons y ys)
  have IH: "(\<Sum>x\<leftarrow>filter Q ys. f x)
     = (\<Sum>x\<leftarrow>filter (\<lambda>x. Q x \<and> key x = None) ys. f x)
       + (\<Sum>k\<leftarrow>ks. \<Sum>x\<leftarrow>filter (\<lambda>x. Q x \<and> key x = Some k) ys. f x)"
    using Cons.prems by (intro Cons.IH) simp
  have split: "(\<Sum>k\<leftarrow>ks. \<Sum>x\<leftarrow>filter (\<lambda>x. Q x \<and> key x = Some k) (y # ys). f x)
      = (\<Sum>k\<leftarrow>ks. if Q y \<and> key y = Some k then f y else 0)
        + (\<Sum>k\<leftarrow>ks. \<Sum>x\<leftarrow>filter (\<lambda>x. Q x \<and> key x = Some k) ys. f x)"
    by (simp only: sum_list_filter_Cons sum_list_addf)
  have one: "(\<Sum>k\<leftarrow>ks. if Q y \<and> key y = Some k then f y else 0)
      = (if Q y \<and> key y \<noteq> None then f y else 0)"
  proof (cases "Q y \<and> key y \<noteq> None")
    case True
    then obtain k where k: "k \<in> set ks" "key y = Some k"
      using Cons.prems by auto
    have "(\<Sum>k'\<leftarrow>ks. if Q y \<and> key y = Some k' then f y else 0)
        = (\<Sum>k'\<leftarrow>ks. if k' = k then f y else 0)"
      using True k(2) by (intro arg_cong [where f = sum_list] map_cong) auto
    then show ?thesis
      using True sum_list_if_single [OF assms(1) k(1), of "f y"] by simp
  next
    case False
    then have "(\<Sum>k\<leftarrow>ks. if Q y \<and> key y = Some k then f y else 0) = 0"
      by (intro sum_list_if_none) auto
    then show ?thesis by (simp only: False if_False)
  qed
  have lhs: "(\<Sum>x\<leftarrow>filter Q (y # ys). f x)
      = (if Q y then f y else 0)
        + ((\<Sum>x\<leftarrow>filter (\<lambda>x. Q x \<and> key x = None) ys. f x)
           + (\<Sum>k\<leftarrow>ks. \<Sum>x\<leftarrow>filter (\<lambda>x. Q x \<and> key x = Some k) ys. f x))"
    by (simp only: sum_list_filter_Cons IH)
  have A: "(\<Sum>x\<leftarrow>filter (\<lambda>x. Q x \<and> key x = None) (y # ys). f x)
      = (if Q y \<and> key y = None then f y else 0)
        + (\<Sum>x\<leftarrow>filter (\<lambda>x. Q x \<and> key x = None) ys. f x)"
    by (rule sum_list_filter_Cons)
  have B: "(\<Sum>k\<leftarrow>ks. \<Sum>x\<leftarrow>filter (\<lambda>x. Q x \<and> key x = Some k) (y # ys). f x)
      = (if Q y \<and> key y \<noteq> None then f y else 0)
        + (\<Sum>k\<leftarrow>ks. \<Sum>x\<leftarrow>filter (\<lambda>x. Q x \<and> key x = Some k) ys. f x)"
    by (simp only: split one)
  have arith: "(if Q y then f y else 0) + (a + b)
      = ((if Q y \<and> key y = None then f y else 0) + a)
        + ((if Q y \<and> key y \<noteq> None then f y else 0) + b)" for a b :: int
    by auto
  show ?case
    by (simp only: lhs A B arith)
qed

lemma sum_list_match_id:
  fixes h :: "match \<Rightarrow> int"
  assumes "distinct (map match_id ms)"
  shows "(\<Sum>m\<leftarrow>filter C ms. if pred_match p = match_id m then h m else 0)
     = (case match_of ms p of None \<Rightarrow> 0 | Some m \<Rightarrow> if C m then h m else 0)"
  using assms
proof (induction ms)
  case Nil
  show ?case by (simp add: match_of_def)
next
  case (Cons m ms)
  have d: "distinct (map match_id ms)" and n: "match_id m \<notin> match_id ` set ms"
    using Cons.prems by auto
  show ?case
  proof (cases "match_id m = pred_match p")
    case True
    then have "\<forall>x \<in> set (filter C ms). \<not> pred_match p = match_id x"
      using n by auto
    then have "(\<Sum>m\<leftarrow>filter C ms. if pred_match p = match_id m then h m else 0) = 0"
      by (rule sum_list_if_none)
    then show ?thesis using True by (simp add: match_of_def)
  next
    case False
    then have "match_of (m # ms) p = match_of ms p"
      by (simp add: match_of_def)
    then show ?thesis using False Cons.IH [OF d] by auto
  qed
qed

lemma sum_join_matches:
  assumes "distinct (map match_id ms)"
  shows "(\<Sum>m\<leftarrow>filter C ms.
            \<Sum>p\<leftarrow>filter (\<lambda>p. K p \<and> pred_match p = match_id m) ps. points_for_prediction m (Some p))
     = (\<Sum>p\<leftarrow>ps. if K p
          then (case match_of ms p of
                  None \<Rightarrow> 0
                | Some m \<Rightarrow> if C m then points_for_prediction m (Some p) else 0)
          else 0)"
proof (induction ps)
  case Nil
  show ?case by (simp add: sum_list_0)
next
  case (Cons p ps)
  have "(\<Sum>m\<leftarrow>filter C ms.
            \<Sum>q\<leftarrow>filter (\<lambda>q. K q \<and> pred_match q = match_id m) (p # ps). points_for_prediction m (Some q))
      = (\<Sum>m\<leftarrow>filter C ms. if K p \<and> pred_match p = match_id m
            then points_for_prediction m (Some p) else 0)
        + (\<Sum>m\<leftarrow>filter C ms.
            \<Sum>q\<leftarrow>filter (\<lambda>q. K q \<and> pred_match q = match_id m) ps. points_for_prediction m (Some q))"
    by (simp only: sum_list_filter_Cons sum_list_addf)
  moreover have "(\<Sum>m\<leftarrow>filter C ms. if K p \<and> pred_match p = match_id m
            then points_for_prediction m (Some p) else 0)
      = (if K p
          then (case match_of ms p of
                  None \<Rightarrow> 0
                | Some m \<Rightarrow> if C m then points_for_prediction m (Some p) else 0)
          else 0)"
  proof (cases "K p")
    case True
    then show ?thesis
      using sum_list_match_id [OF assms, where C = C and p = p
          and h = "\<lambda>m. points_for_prediction m (Some p)"]
      by simp
  next
    case False
    then show ?thesis by (simp add: sum_list_0)
  qed
  ultimately show ?case using Cons.IH by simp
qed

lemma fold_pred_map:
  "fold (\<lambda>p d. d((pred_user p, pred_match p) \<mapsto> p)) ps d0 (a, b)
     = (if filter (\<lambda>p. pred_user p = a \<and> pred_match p = b) ps = [] then d0 (a, b)
        else Some (last (filter (\<lambda>p. pred_user p = a \<and> pred_match p = b) ps)))"
proof (induction ps arbitrary: d0)
  case Nil
  show ?case by simp
next
  case (Cons p ps)
  have "fold (\<lambda>p d. d((pred_user p, pred_match p) \<mapsto> p)) (p # ps) d0 (a, b)
      = fold (\<lambda>p d. d((pred_user p, pred_match p) \<mapsto> p)) ps (d0((pred_user p, pred_match p) \<mapsto> p)) (a, b)"
    by (simp only: fold_Cons o_apply)
  also have "\<dots> = (if filter (\<lambda>p. pred_user p = a \<and> pred_match p = b) ps = []
        then (d0((pred_user p, pred_match p) \<mapsto> p)) (a, b)
        else Some (last (filter (\<lambda>p. pred_user p = a \<and> pred_match p = b) ps)))"
    by (rule Cons.IH)
  also have "\<dots> = (if filter (\<lambda>p. pred_user p = a \<and> pred_match p = b) (p # ps) = [] then d0 (a, b)
        else Some (last (filter (\<lambda>p. pred_user p = a \<and> pred_match p = b) (p # ps))))"
    by auto
  finally show ?case .
qed

lemma distinct_key_filter:
  assumes "distinct (map f xs)"
  shows "length (filter (\<lambda>x. f x = k) xs) \<le> 1"
  using assms
proof (induction xs)
  case Nil
  show ?case by simp
next
  case (Cons x xs)
  show ?case
  proof (cases "f x = k")
    case True
    have "f x \<notin> f ` set xs" using Cons.prems by simp
    then have "\<forall>y \<in> set xs. f y \<noteq> k" using True by (metis imageI)
    then have "filter (\<lambda>x. f x = k) xs = []"
      by (simp add: filter_empty_conv)
    then show ?thesis using True by simp
  next
    case False
    then show ?thesis using Cons by simp
  qed
qed

lemma points_pred_map:
  assumes "distinct (map (\<lambda>p. (pred_user p, pred_group p, pred_match p)) ps)"
    and "uid \<in> user_id ` set users" and "match_id m \<in> match_id ` set ms"
  shows "points_for_prediction m (pred_map (all_preds ps g ms users) (uid, match_id m))
     = (\<Sum>p\<leftarrow>filter (\<lambda>p. (pred_user p = uid \<and> pred_group p = g) \<and> pred_match p = match_id m) ps.
          points_for_prediction m (Some p))"
proof -
  let ?qs = "filter (\<lambda>p. (pred_user p = uid \<and> pred_group p = g) \<and> pred_match p = match_id m) ps"
  have q: "filter (\<lambda>p. pred_user p = uid \<and> pred_match p = match_id m) (all_preds ps g ms users) = ?qs"
    unfolding all_preds_def filter_filter
    using assms(2,3) by (intro filter_cong) auto
  have "?qs = filter (\<lambda>p. (pred_user p, pred_group p, pred_match p) = (uid, g, match_id m)) ps"
    by (intro filter_cong) auto
  then have "length ?qs \<le> 1"
    using distinct_key_filter [OF assms(1), of "(uid, g, match_id m)"] by simp
  then consider "?qs = []" | q where "?qs = [q]"
    by (cases ?qs) (auto simp: le_Suc_eq)
  then show ?thesis
  proof cases
    case 1
    then show ?thesis
      by (simp only: pred_map_def fold_pred_map q)
        (simp add: points_for_prediction_def)
  next
    case 2
    then show ?thesis
      by (simp only: pred_map_def fold_pred_map q) simp
  qed
qed

lemma pred_map_all_preds:
  assumes "uid \<in> user_id ` set users" and "mid \<in> match_id ` set ms"
  shows "pred_map (all_preds ps g ms users) (uid, mid)
     = (if filter (\<lambda>p. (pred_user p = uid \<and> pred_group p = g) \<and> pred_match p = mid) ps = []
        then None
        else Some (last (filter (\<lambda>p. (pred_user p = uid \<and> pred_group p = g) \<and> pred_match p = mid) ps)))"
proof -
  have "filter (\<lambda>p. pred_user p = uid \<and> pred_match p = mid) (all_preds ps g ms users)
      = filter (\<lambda>p. (pred_user p = uid \<and> pred_group p = g) \<and> pred_match p = mid) ps"
    unfolding all_preds_def filter_filter
    using assms by (intro filter_cong) auto
  then show ?thesis
    by (simp only: pred_map_def fold_pred_map)
qed

lemma set_matchdays:
  "set (matchdays r) = {md. \<exists>m \<in> set (match_objects r).
      match_tournament m = tournament_id (req_tournament r) \<and> matchday m = Some md}"
  by (force simp: matchdays_def matchdays_of_def List.map_filter_def image_iff)

lemma sum_points_no_results:
  assumes "\<not> any_results ms"
  shows "(\<Sum>m\<leftarrow>ms. points_for_prediction m (q m)) = 0"
proof -
  have "\<forall>m \<in> set ms. points_for_prediction m (q m) = 0"
    using assms by (auto simp: any_results_def list_ex_iff intro!: points_no_result)
  then show ?thesis by (simp add: sum_list_0 cong: map_cong)
qed

lemma md_points_cell_default:
  "(case md_points_cell ms pm uid md of None \<Rightarrow> 0 | Some p \<Rightarrow> p)
     = (\<Sum>m\<leftarrow>matches_by_md ms md. points_for_prediction m (pm (uid, match_id m)))"
  by (simp add: md_points_cell_eq sum_points_no_results)

lemma finished_sum:
  "(\<Sum>pr\<leftarrow>filter (\<lambda>pr. pred_user pr = uid)
        (filter (\<lambda>pr. pred_group pr = g
            \<and> (case match_of ms pr of
                  None \<Rightarrow> False
                | Some m \<Rightarrow> match_tournament m = tid \<and> home_score m \<noteq> None \<and> away_score m \<noteq> None)) ps).
      pred_points ms pr)
   = (\<Sum>p\<leftarrow>ps. if pred_user p = uid \<and> pred_group p = g
        then (case match_of ms p of
                None \<Rightarrow> 0
              | Some m \<Rightarrow>
                  if match_tournament m = tid \<and> home_score m \<noteq> None \<and> away_score m \<noteq> None
                  then points_for_prediction m (Some p) else 0)
        else 0)"
  by (induction ps) (auto simp: pred_points_def split: option.splits)

lemma unassigned_sum:
  "(\<Sum>pr\<leftarrow>filter (\<lambda>pr. pred_user pr = uid
            \<and> (case match_of ms pr of None \<Rightarrow> False | Some m \<Rightarrow> matchday m = None))
        (filter (\<lambda>pr. pred_group pr = g
            \<and> (case match_of ms pr of
                  None \<Rightarrow> False
                | Some m \<Rightarrow> match_tournament m = tid \<and> home_score m \<noteq> None \<and> away_score m \<noteq> None)) ps).
      pred_points ms pr)
   = (\<Sum>p\<leftarrow>ps. if pred_user p = uid \<and> pred_group p = g
        then (case match_of ms p of
                None \<Rightarrow> 0
              | Some m \<Rightarrow>
                  if (match_tournament m = tid \<and> home_score m \<noteq> None \<and> away_score m \<noteq> None)
                     \<and> matchday m = None
                  then points_for_prediction m (Some p) else 0)
        else 0)"
  by (induction ps) (auto simp: pred_points_def split: option.splits)

lemma all_matchday_matches_by_md:
  assumes "md \<in> set (matchdays r)"
  shows "matches_by_md (all_matchday_matches r) md
     = filter (\<lambda>m. match_tournament m = tournament_id (req_tournament r) \<and> matchday m = Some md)
         (match_objects r)"
  using assms by (simp add: all_matchday_matches_def window_matches_by_md)

lemma matches_by_md_subset: "set (matches_by_md ms md) \<subseteq> set ms"
  by (auto simp: matches_by_md_def)

lemma matchday_points_sum:
  assumes "db_consistent r" and "uid \<in> user_id ` set (req_users r)" and "md \<in> set (matchdays r)"
  shows "(case matchday_points r uid md of None \<Rightarrow> 0 | Some p \<Rightarrow> p)
     = (\<Sum>m\<leftarrow>filter (\<lambda>m. (match_tournament m = tournament_id (req_tournament r)
                \<and> home_score m \<noteq> None \<and> away_score m \<noteq> None) \<and> matchday m = Some md)
            (match_objects r).
          \<Sum>p\<leftarrow>filter (\<lambda>p. (pred_user p = uid \<and> pred_group p = req_group r)
                \<and> pred_match p = match_id m) (prediction_objects r).
            points_for_prediction m (Some p))"
proof -
  let ?M = "all_matchday_matches r"
  let ?Mmd = "matches_by_md ?M md"
  let ?pm = "pred_map (all_preds (prediction_objects r) (req_group r) ?M (req_users r))"
  let ?R = "\<lambda>m. home_score m \<noteq> None \<and> away_score m \<noteq> None"
  let ?S = "\<lambda>m. \<Sum>p\<leftarrow>filter (\<lambda>p. (pred_user p = uid \<and> pred_group p = req_group r)
                \<and> pred_match p = match_id m) (prediction_objects r).
            points_for_prediction m (Some p)"
  have dp: "distinct (map (\<lambda>p. (pred_user p, pred_group p, pred_match p)) (prediction_objects r))"
    using assms(1) by (simp add: db_consistent_def)
  have pt: "points_for_prediction m (?pm (uid, match_id m)) = (if ?R m then ?S m else 0)"
    if "m \<in> set ?Mmd" for m
  proof (cases "?R m")
    case True
    have "match_id m \<in> match_id ` set ?M"
      using that matches_by_md_subset [of ?M md] by auto
    then show ?thesis
      using True points_pred_map [OF dp assms(2), of m ?M "req_group r"] by simp
  next
    case False
    then show ?thesis by (simp add: points_no_result)
  qed
  have "(case matchday_points r uid md of None \<Rightarrow> 0 | Some p \<Rightarrow> p)
      = (\<Sum>m\<leftarrow>?Mmd. points_for_prediction m (?pm (uid, match_id m)))"
    unfolding matchday_points_def by (rule md_points_cell_default)
  also have "\<dots> = (\<Sum>m\<leftarrow>?Mmd. if ?R m then ?S m else 0)"
    by (intro arg_cong [where f = sum_list] map_cong refl pt)
  also have "\<dots> = (\<Sum>m\<leftarrow>filter ?R ?Mmd. ?S m)"
    by (simp only: sum_list_map_filter')
  also have "filter ?R ?Mmd
      = filter (\<lambda>m. (match_tournament m = tournament_id (req_tournament r)
                \<and> home_score m \<noteq> None \<and> away_score m \<noteq> None) \<and> matchday m = Some md)
            (match_objects r)"
    unfolding all_matchday_matches_by_md [OF assms(3)] filter_filter
    by (intro filter_cong) auto
  finally show ?thesis .
qed

lemma shown_subset_matchdays: "set (shown_matchdays r) \<subseteq> set (matchdays r)"
proof -
  have "set (shown_matchdays r) \<subseteq> set (drop (nat (from_idx r)) (matchdays r))"
    unfolding shown_matchdays_def by (rule set_take_subset)
  also have "\<dots> \<subseteq> set (matchdays r)" by (rule set_drop_subset)
  finally show ?thesis .
qed

lemma md_points_matchday_points:
  assumes "uid \<in> user_id ` set (req_users r)" and "md \<in> set (shown_matchdays r)"
  shows "md_points r (uid, md) = Some (matchday_points r uid md)"
proof -
  let ?F = "filter (\<lambda>m. match_tournament m = tournament_id (req_tournament r) \<and> matchday m = Some md)
         (match_objects r)"
  let ?pw = "pred_map (all_preds (prediction_objects r) (req_group r) (matches r) (req_users r))"
  let ?pa = "pred_map (all_preds (prediction_objects r) (req_group r) (all_matchday_matches r)
      (req_users r))"
  have md: "md \<in> set (matchdays r)" using assms(2) shown_subset_matchdays by auto
  have w: "matches_by_md (matches r) md = ?F"
    using assms(2) by (simp add: matches_def window_matches_by_md)
  have a: "matches_by_md (all_matchday_matches r) md = ?F"
    using md by (rule all_matchday_matches_by_md)
  have pm: "?pw (uid, match_id m) = ?pa (uid, match_id m)" if "m \<in> set ?F" for m
  proof -
    have "match_id m \<in> match_id ` set (matches r)"
      using that matches_by_md_subset [of "matches r" md] unfolding w by auto
    moreover have "match_id m \<in> match_id ` set (all_matchday_matches r)"
      using that matches_by_md_subset [of "all_matchday_matches r" md] unfolding a by auto
    ultimately show ?thesis
      using assms(1) by (simp only: pred_map_all_preds)
  qed
  have "(\<Sum>m\<leftarrow>?F. points_for_prediction m (?pw (uid, match_id m)))
      = (\<Sum>m\<leftarrow>?F. points_for_prediction m (?pa (uid, match_id m)))"
    by (intro arg_cong [where f = sum_list] map_cong refl) (simp only: pm)
  then have "md_points_cell (matches r) ?pw uid md
      = md_points_cell (all_matchday_matches r) ?pa uid md"
    by (simp only: md_points_cell_eq w a)
  then show ?thesis
    using assms by (simp add: md_points_def md_points_of_lookup matchday_points_def)
qed

text \<open>
  What the season total of a group user is made of, under the uniqueness constraints of
  the models: the user's points of every matchday of the tournament, shown or not, the
  points of the user's predictions on matches with a result and no matchday, and the
  bonus points once they are revealed. For a shown matchday the stored aggregate is the
  user's points of that matchday.
\<close>

lemma season_total_decomposition:
  assumes "db_consistent r" and "u \<in> set (req_users r)"
  shows "season_total r (user_id u)
      = (\<Sum>md\<leftarrow>matchdays r. case matchday_points r (user_id u) md of None \<Rightarrow> 0 | Some p \<Rightarrow> p)
        + unassigned_points r (user_id u)
        + (if bonus_reveal r then user_bonus_points r (user_id u) else 0)
    \<and> (bonus_reveal r \<longleftrightarrow> (\<exists>s. season_start (req_tournament r) = Some s \<and> s \<le> req_now r))
    \<and> (\<forall>md \<in> set (shown_matchdays r).
          md_points r (user_id u, md) = Some (matchday_points r (user_id u) md))"
proof (intro conjI ballI)
  let ?uid = "user_id u"
  let ?ms = "match_objects r"
  let ?ps = "prediction_objects r"
  let ?K = "\<lambda>p. pred_user p = ?uid \<and> pred_group p = req_group r"
  let ?C = "\<lambda>m. match_tournament m = tournament_id (req_tournament r)
      \<and> home_score m \<noteq> None \<and> away_score m \<noteq> None"
  let ?S = "\<lambda>m. \<Sum>p\<leftarrow>filter (\<lambda>p. ?K p \<and> pred_match p = match_id m) ?ps.
      points_for_prediction m (Some p)"
  have uid: "?uid \<in> user_id ` set (req_users r)" using assms(2) by simp
  have du: "distinct (map user_id (req_users r))" and dm: "distinct (map match_id ?ms)"
    using assms(1) by (simp_all add: db_consistent_def)
  have cover: "\<forall>m \<in> set ?ms. ?C m \<longrightarrow>
      matchday m = None \<or> (\<exists>md \<in> set (matchdays r). matchday m = Some md)"
  proof (intro ballI impI)
    fix m assume m: "m \<in> set ?ms" "?C m"
    show "matchday m = None \<or> (\<exists>md \<in> set (matchdays r). matchday m = Some md)"
    proof (cases "matchday m")
      case None
      then show ?thesis by simp
    next
      case (Some md)
      then have "md \<in> set (matchdays r)"
        using m unfolding set_matchdays by blast
      then show ?thesis using Some by simp
    qed
  qed
  have "(\<Sum>pr\<leftarrow>filter (\<lambda>pr. pred_user pr = ?uid) (finished_preds r). pred_points ?ms pr)
      = (\<Sum>m\<leftarrow>filter ?C ?ms. ?S m)"
    unfolding finished_preds_def finished_sum
    by (rule sum_join_matches [OF dm, symmetric])
  also have "\<dots> = (\<Sum>m\<leftarrow>filter (\<lambda>m. ?C m \<and> matchday m = None) ?ms. ?S m)
      + (\<Sum>md\<leftarrow>matchdays r. \<Sum>m\<leftarrow>filter (\<lambda>m. ?C m \<and> matchday m = Some md) ?ms. ?S m)"
    using distinct_matchdays cover by (rule sum_list_partition_by_key)
  also have "(\<Sum>m\<leftarrow>filter (\<lambda>m. ?C m \<and> matchday m = None) ?ms. ?S m)
      = unassigned_points r ?uid"
    unfolding unassigned_points_def finished_preds_def unassigned_sum
    by (rule sum_join_matches [OF dm])
  also have "(\<Sum>md\<leftarrow>matchdays r. \<Sum>m\<leftarrow>filter (\<lambda>m. ?C m \<and> matchday m = Some md) ?ms. ?S m)
      = (\<Sum>md\<leftarrow>matchdays r. case matchday_points r ?uid md of None \<Rightarrow> 0 | Some p \<Rightarrow> p)"
    by (intro arg_cong [where f = sum_list] map_cong refl
        matchday_points_sum [OF assms(1) uid, symmetric])
  finally have "(\<Sum>pr\<leftarrow>filter (\<lambda>pr. pred_user pr = ?uid) (finished_preds r). pred_points ?ms pr)
      = unassigned_points r ?uid
        + (\<Sum>md\<leftarrow>matchdays r. case matchday_points r ?uid md of None \<Rightarrow> 0 | Some p \<Rightarrow> p)" .
  then show "season_total r ?uid
      = (\<Sum>md\<leftarrow>matchdays r. case matchday_points r ?uid md of None \<Rightarrow> 0 | Some p \<Rightarrow> p)
        + unassigned_points r ?uid
        + (if bonus_reveal r then user_bonus_points r ?uid else 0)"
    by (simp add: season_total_eq [OF du uid])
next
  show "bonus_reveal r \<longleftrightarrow> (\<exists>s. season_start (req_tournament r) = Some s \<and> s \<le> req_now r)"
    by (simp add: bonus_reveal_def split: option.splits)
next
  fix md assume "md \<in> set (shown_matchdays r)"
  then show "md_points r (user_id u, md) = Some (matchday_points r (user_id u) md)"
    using assms(2) by (intro md_points_matchday_points) simp_all
qed

lemma season_total_decomposition_example:
  "db_consistent example_request
   \<and> season_total example_request 1 = 4 + 4 + 5"
proof -
  let ?r = example_request
  let ?u1 = "\<lparr>user_id = 1, username = ''Ana''\<rparr>"
  have c: "db_consistent ?r" by code_simp
  have u1: "?u1 \<in> set (req_users ?r)"
    by (simp add: example_request_def example_users_def)
  have e: "(\<Sum>md\<leftarrow>matchdays ?r. case matchday_points ?r (user_id ?u1) md of None \<Rightarrow> 0 | Some p \<Rightarrow> p) = 4"
    "unassigned_points ?r (user_id ?u1) = 4"
    "(if bonus_reveal ?r then user_bonus_points ?r (user_id ?u1) else 0) = 5"
    by code_simp+
  have "season_total ?r (user_id ?u1) = 4 + 4 + 5"
    by (simp only: season_total_decomposition [OF c u1, THEN conjunct1] e)
  with c show ?thesis by simp
qed

text \<open>
  Claim C5. The claim: the season total of a user is the sum of the user's points over
  all matchdays with results, plus the bonus points exactly when they are revealed. The
  loop over the finished predictions also adds the points of predictions on matches that
  have a result and no matchday. In the example request the bonus is revealed and the
  tournament has matchdays; user 1 has 4 points on the matchdays, 5 bonus points and an
  exact prediction (4 points) on the match without a matchday: the total is 13, where
  the sum over the matchdays plus the bonus is 9.
\<close>

theorem season_total_counts_unassigned_matches:
  "db_consistent example_request
   \<and> bonus_reveal example_request
   \<and> matchdays example_request \<noteq> []
   \<and> season_total example_request 1 = 13
   \<and> (\<Sum>md\<leftarrow>matchdays example_request.
        case matchday_points example_request 1 md of None \<Rightarrow> 0 | Some p \<Rightarrow> p)
      + (if bonus_reveal example_request then user_bonus_points example_request 1 else 0) = 9
   \<and> unassigned_points example_request 1 = 4"
  by code_simp

end
